theory Spec2Isabelle
  imports Main "HOL-Library.Sublist" "HOL-Library.Char_ord" "HOL-Library.List_Lexorder"
begin

section \<open>Flag Finder: a shallow embedding of \<^verbatim>\<open>flag_finder.py\<close>\<close>

text \<open>
  A Python \<^verbatim>\<open>str\<close> is modelled as a \<^typ>\<open>string\<close>, read as the UTF-8 encoding of the text.
  The brace \<^verbatim>\<open>}\<close> is a single byte that occurs in no multi-byte sequence, and comparing
  UTF-8 strings byte by byte orders them as Python orders the code points, so the
  matcher and \<^verbatim>\<open>sorted\<close> behave on the bytes as they do on the characters.
\<close>

subsection \<open>The flag pattern \<^verbatim>\<open>USU\{[^}]+\}\<close>\<close>

text \<open>
  One attempt of the regular expression at the start of \<open>s\<close>: the literal \<^verbatim>\<open>USU{\<close>, then the
  greedy class \<^verbatim>\<open>[^}]+\<close>, which takes the longest run of characters other than the closing
  brace (giving characters back never helps, since the character after a shorter run is
  not a brace), then the closing brace. The result is the matched text and what follows it.
\<close>

definition match_here :: "string \<Rightarrow> (string \<times> string) option" where
  "match_here s =
     (if take 4 s = ''USU{'' then
        (let body = takeWhile (\<lambda>c. c \<noteq> CHR ''}'') (drop 4 s);
             rest = dropWhile (\<lambda>c. c \<noteq> CHR ''}'') (drop 4 s)
         in if body \<noteq> [] \<and> rest \<noteq> [] then Some (''USU{'' @ body @ ''}'', tl rest) else None)
      else None)"

text \<open>
  \<^verbatim>\<open>flag_pattern.findall(text)\<close>: the scan tries each position from the left; after a match it
  goes on behind the match, otherwise one character further.
\<close>

function findall :: "string \<Rightarrow> string list" where
  "findall [] = []"
| "findall (c # cs) =
     (case match_here (c # cs) of
        Some (flag, rest) \<Rightarrow> flag # findall rest
      | None \<Rightarrow> findall cs)"
  by pat_completeness auto
termination
proof (relation "measure length")
  show "wf (measure length)" by simp
next
  fix c :: char and cs :: string and x2 :: "string \<times> string" and flag rest :: string
  assume m: "match_here (c # cs) = Some x2" and x2: "(flag, rest) = x2"
  from m x2 have r: "rest = tl (dropWhile (\<lambda>c. c \<noteq> CHR ''}'') (drop 4 (c # cs)))"
    by (auto simp: match_here_def Let_def split: if_splits)
  have "length rest \<le> length (dropWhile (\<lambda>c. c \<noteq> CHR ''}'') (drop 4 (c # cs)))"
    unfolding r by simp
  also have "\<dots> \<le> length (drop 4 (c # cs))"
    by (rule length_dropWhile_le)
  also have "\<dots> < length (c # cs)"
    by simp
  finally show "(rest, c # cs) \<in> measure length" by simp
next
  fix c :: char and cs :: string
  assume "match_here (c # cs) = None"
  show "(cs, c # cs) \<in> measure length" by simp
qed

subsection \<open>The finder object and what it prints\<close>

text \<open>
  The fields of \<^verbatim>\<open>FlagFinder\<close> (the HTTP session, which only carries the User-Agent header,
  belongs to the environment below), followed by two histories of the run: \<open>stdout\<close>, the
  argument of every \<^verbatim>\<open>print\<close> call in order (each call ends its text with a line break), and
  \<open>scanned\<close>, the text and source label of every call of \<^verbatim>\<open>find_flags_in_text\<close> in order.
\<close>

record finder =
  found_flags :: "string set"
  verbose :: bool
  crawl :: bool
  max_depth :: int
  visited_urls :: "string set"
  base_domain :: "string option"
  stdout :: "string list"
  scanned :: "(string \<times> string) list"

definition FlagFinder :: "bool \<Rightarrow> finder" where
  "FlagFinder v =
     \<lparr>found_flags = {}, verbose = v, crawl = False, max_depth = 3, visited_urls = {},
      base_domain = None, stdout = [], scanned = []\<rparr>"

definition print :: "string \<Rightarrow> finder \<Rightarrow> finder" where
  "print line st = st\<lparr>stdout := stdout st @ [line]\<rparr>"

definition log :: "string \<Rightarrow> finder \<Rightarrow> finder" where
  "log message st = (if verbose st then print (''[*] '' @ message) st else st)"

subsection \<open>\<^verbatim>\<open>find_flags_in_text\<close>\<close>

text \<open>The body of the loop over the matches: a flag not yet in the set is added and printed.\<close>

definition report_flag :: "string \<Rightarrow> string \<Rightarrow> finder \<Rightarrow> finder" where
  "report_flag source flag st =
     (if flag \<notin> found_flags st then
        print (''    Source: '' @ source)
          (print (CHR 0x0A # ''[+] FLAG FOUND: '' @ flag)
             (st\<lparr>found_flags := insert flag (found_flags st)\<rparr>))
      else st)"

definition find_flags_in_text :: "string \<Rightarrow> string \<Rightarrow> finder \<Rightarrow> finder" where
  "find_flags_in_text text source st =
     (let matches = findall text;
          st = st\<lparr>scanned := scanned st @ [(text, source)]\<rparr>
      in if matches \<noteq> [] then fold (report_flag source) matches st else st)"

subsection \<open>The environment: file system, HTTP client, HTML parser\<close>

text \<open>
  A directory tree as \<^verbatim>\<open>os.walk\<close> sees it: the entries of a directory in the order in which
  the directory is listed, each a file or a directory. Symbolic links to directories are
  not followed (the default of \<^verbatim>\<open>os.walk\<close>), so the tree is finite.
\<close>

datatype node = File | Dir "(string \<times> node) list"

text \<open>
  What \<^verbatim>\<open>session.get(url, timeout=10)\<close> returns when it raises nothing: the status code, the
  reason phrase, the final URL and the decoded body.
\<close>

record response =
  status_code :: nat
  reason :: string
  resp_url :: string
  resp_text :: string

text \<open>
  A \<^verbatim>\<open>script\<close> tag of the parsed page with its \<^verbatim>\<open>src\<close> attribute and its \<^verbatim>\<open>.string\<close>; the document
  with the answers to the four queries of \<^verbatim>\<open>scan_url\<close>: the \<^verbatim>\<open>script\<close> tags, the \<^verbatim>\<open>href\<close> of every
  \<^verbatim>\<open>link\<close> tag with \<^verbatim>\<open>rel=stylesheet\<close>, the \<^verbatim>\<open>.string\<close> of every \<^verbatim>\<open>style\<close> tag, and every text node.
\<close>

record script_tag =
  src :: "string option"
  script_string :: "string option"

record soup =
  scripts :: "script_tag list"
  stylesheet_hrefs :: "string option list"
  style_strings :: "string option list"
  strings :: "string list"

text \<open>
  The collaborators of the program:
  \<^item> \<open>open_read path\<close>: opening the file and reading all of it, either the message of the
    exception raised or the bytes read;
  \<^item> \<open>decode_ignore\<close>: the UTF-8 codec with \<^verbatim>\<open>errors='ignore'\<close>, a total function on bytes;
  \<^item> \<open>tree path\<close>: the directory tree at a path, if the path is a directory;
  \<^item> \<open>session_get url\<close>: the message of the exception raised by the request (no connection,
    timeout, too many redirects) or the response;
  \<^item> \<open>BeautifulSoup\<close> with \<^verbatim>\<open>html.parser\<close>, which is lenient and returns a document for every
    text;
  \<^item> \<open>urljoin base url\<close>: the joined URL, or the message of the \<^verbatim>\<open>ValueError\<close> that
    \<^verbatim>\<open>urllib.parse.urljoin\<close> raises (it does for a reference whose host part has an unmatched
    bracket, such as \<^verbatim>\<open>//[\<close>);
  \<^item> \<open>usage_help\<close>: what \<^verbatim>\<open>parser.print_help()\<close> prints.
\<close>

record env =
  open_read :: "string \<Rightarrow> string + string"
  decode_ignore :: "string \<Rightarrow> string"
  tree :: "string \<Rightarrow> node option"
  session_get :: "string \<Rightarrow> string + response"
  BeautifulSoup :: "string \<Rightarrow> soup"
  urljoin :: "string \<Rightarrow> string \<Rightarrow> string + string"
  usage_help :: string

subsection \<open>\<^verbatim>\<open>scan_file\<close>\<close>

definition scan_file :: "env \<Rightarrow> string \<Rightarrow> finder \<Rightarrow> finder" where
  "scan_file e filepath st =
     (case open_read e filepath of
        Inr bytes \<Rightarrow>
          find_flags_in_text (decode_ignore e bytes) filepath
            (log (''Scanning file: '' @ filepath) st)
      | Inl msg \<Rightarrow> print (''[-] Error reading '' @ filepath @ '': '' @ msg) st)"

subsection \<open>\<^verbatim>\<open>scan_directory\<close>\<close>

text \<open>\<^verbatim>\<open>os.path.join\<close> of two components and \<^verbatim>\<open>str.endswith\<close>.\<close>

definition path_join :: "string \<Rightarrow> string \<Rightarrow> string" where
  "path_join a b =
     (if take 1 b = ''/'' then b
      else if a = [] \<or> last a = CHR ''/'' then a @ b
      else a @ ''/'' @ b)"

definition endswith :: "string \<Rightarrow> string \<Rightarrow> bool" where
  "endswith s ext = (length ext \<le> length s \<and> drop (length s - length ext) s = ext)"

text \<open>
  \<^verbatim>\<open>os.walk(top)\<close>, top down: the triple of a directory (its path, the names of its
  subdirectories, the names of its files), then the walks of its subdirectories in order.
  A path that is no directory yields nothing.
\<close>

fun is_dir :: "node \<Rightarrow> bool" where
  "is_dir File = False"
| "is_dir (Dir es) = True"

fun os_walk :: "string \<Rightarrow> node \<Rightarrow> (string \<times> string list \<times> string list) list" where
  "os_walk dirpath File = []"
| "os_walk dirpath (Dir es) =
     (dirpath, map fst (filter (\<lambda>x. is_dir (snd x)) es), map fst (filter (\<lambda>x. \<not> is_dir (snd x)) es))
       # concat (map (\<lambda>x. os_walk (path_join dirpath (fst x)) (snd x)) es)"

definition default_extensions :: "string list" where
  "default_extensions =
     [''.html'', ''.htm'', ''.js'', ''.css'', ''.php'', ''.txt'', ''.json'', ''.xml'']"

text \<open>The files of one triple that pass the filter, as the paths handed to \<^verbatim>\<open>scan_file\<close>.\<close>

definition selected :: "string list \<Rightarrow> string \<times> string list \<times> string list \<Rightarrow> string list" where
  "selected extensions t =
     map (path_join (fst t)) (filter (\<lambda>file. list_ex (endswith file) extensions) (snd (snd t)))"

definition walk :: "env \<Rightarrow> string \<Rightarrow> (string \<times> string list \<times> string list) list" where
  "walk e directory = (case tree e directory of None \<Rightarrow> [] | Some n \<Rightarrow> os_walk directory n)"

definition scan_directory :: "env \<Rightarrow> string \<Rightarrow> string list option \<Rightarrow> finder \<Rightarrow> finder" where
  "scan_directory e directory extensions st =
     (let extensions = (case extensions of None \<Rightarrow> default_extensions | Some xs \<Rightarrow> xs);
          st = log (''Scanning directory: '' @ directory) st
      in fold (\<lambda>t. fold (scan_file e) (selected extensions t)) (walk e directory) st)"

subsection \<open>\<^verbatim>\<open>fetch_url_content\<close>\<close>

text \<open>Python's \<^verbatim>\<open>str\<close> of a natural number, for the formatted messages.\<close>

fun str_nat :: "nat \<Rightarrow> string" where
  "str_nat n =
     (if n < 10 then [''0123456789'' ! n]
      else str_nat (n div 10) @ [''0123456789'' ! (n mod 10)])"

declare str_nat.simps [simp del]

text \<open>
  \<^verbatim>\<open>response.raise_for_status()\<close> of the HTTP library: it raises for a status from 400 to 599
  and for no other status. The result is the message of the exception, if one is raised.
\<close>

definition raise_for_status :: "response \<Rightarrow> string option" where
  "raise_for_status r =
     (if 400 \<le> status_code r \<and> status_code r < 500 then
        Some (str_nat (status_code r) @ '' Client Error: '' @ reason r @ '' for url: '' @ resp_url r)
      else if 500 \<le> status_code r \<and> status_code r < 600 then
        Some (str_nat (status_code r) @ '' Server Error: '' @ reason r @ '' for url: '' @ resp_url r)
      else None)"

text \<open>The result is the value returned (\<open>None\<close> for Python's \<^verbatim>\<open>None\<close>) and the finder afterwards.\<close>

definition fetch_url_content :: "env \<Rightarrow> string \<Rightarrow> finder \<Rightarrow> string option \<times> finder" where
  "fetch_url_content e url st =
     (let st = log (''Fetching: '' @ url) st
      in case session_get e url of
           Inl msg \<Rightarrow> (None, print (''[-] Error fetching '' @ url @ '': '' @ msg) st)
         | Inr r \<Rightarrow>
             (case raise_for_status r of
                Some msg \<Rightarrow> (None, print (''[-] Error fetching '' @ url @ '': '' @ msg) st)
              | None \<Rightarrow> (Some (resp_text r), st)))"

subsection \<open>\<^verbatim>\<open>scan_url\<close>\<close>

text \<open>
  Python's truth value of an optional string, as in \<^verbatim>\<open>if not html_content\<close>,
  \<^verbatim>\<open>if script.get('src')\<close> and \<^verbatim>\<open>if args.url\<close>: \<^verbatim>\<open>None\<close> and the empty string are false.
\<close>

definition truthy :: "string option \<Rightarrow> bool" where
  "truthy x = (case x of None \<Rightarrow> False | Some s \<Rightarrow> s \<noteq> [])"

text \<open>
  How a call ends: it returns, or it raises an exception that nothing inside it catches. Either
  way the finder is as the call left it, since what was found and printed before an exception
  stays found and printed; an exception carries its message.
\<close>

datatype outcome = Returns finder | Raises string finder

fun finder_of :: "outcome \<Rightarrow> finder" where
  "finder_of (Returns st) = st"
| "finder_of (Raises msg st) = st"

text \<open>A \<^verbatim>\<open>for\<close> loop whose body may raise: the first exception ends the loop.\<close>

fun for_each :: "('a \<Rightarrow> finder \<Rightarrow> outcome) \<Rightarrow> 'a list \<Rightarrow> finder \<Rightarrow> outcome" where
  "for_each body [] st = Returns st"
| "for_each body (x # xs) st =
     (case body x st of
        Returns st' \<Rightarrow> for_each body xs st'
      | Raises msg st' \<Rightarrow> Raises msg st')"

text \<open>
  The bodies of the four loops of \<^verbatim>\<open>scan_url\<close>. The calls of \<^verbatim>\<open>urljoin\<close> for a script and for a
  style sheet stand outside every \<^verbatim>\<open>try\<close>, so its exception leaves the loop and \<^verbatim>\<open>scan_url\<close>.
\<close>

definition scan_script :: "env \<Rightarrow> string \<Rightarrow> script_tag \<Rightarrow> finder \<Rightarrow> outcome" where
  "scan_script e url script st =
     (if truthy (src script) then
        (case urljoin e url (the (src script)) of
           Inl msg \<Rightarrow> Raises msg st
         | Inr script_url \<Rightarrow>
             (let (script_content, st) = fetch_url_content e script_url st
              in Returns
                   (if truthy script_content then
                      find_flags_in_text (the script_content) (script_url @ '' (JavaScript)'') st
                    else st)))
      else if truthy (script_string script) then
        Returns
          (find_flags_in_text (the (script_string script)) (url @ '' (Inline JavaScript)'') st)
      else Returns st)"

definition scan_link :: "env \<Rightarrow> string \<Rightarrow> string option \<Rightarrow> finder \<Rightarrow> outcome" where
  "scan_link e url href st =
     (if truthy href then
        (case urljoin e url (the href) of
           Inl msg \<Rightarrow> Raises msg st
         | Inr css_url \<Rightarrow>
             (let (css_content, st) = fetch_url_content e css_url st
              in Returns
                   (if truthy css_content then
                      find_flags_in_text (the css_content) (css_url @ '' (CSS)'') st
                    else st)))
      else Returns st)"

definition scan_style :: "string \<Rightarrow> string option \<Rightarrow> finder \<Rightarrow> finder" where
  "scan_style url style st =
     (if truthy style then find_flags_in_text (the style) (url @ '' (Inline CSS)'') st else st)"

definition scan_comment :: "string \<Rightarrow> string \<Rightarrow> finder \<Rightarrow> finder" where
  "scan_comment url comment st = find_flags_in_text comment (url @ '' (HTML Content)'') st"

text \<open>The part of \<^verbatim>\<open>scan_url\<close> behind the guard \<^verbatim>\<open>if not html_content: return\<close>.\<close>

definition scan_page :: "env \<Rightarrow> string \<Rightarrow> string \<Rightarrow> finder \<Rightarrow> outcome" where
  "scan_page e url html_content st =
     (let st = find_flags_in_text html_content (url @ '' (HTML)'') st;
          soup = BeautifulSoup e html_content
      in case for_each (scan_script e url) (scripts soup) st of
           Raises msg st \<Rightarrow> Raises msg st
         | Returns st \<Rightarrow>
             (case for_each (scan_link e url) (stylesheet_hrefs soup) st of
                Raises msg st \<Rightarrow> Raises msg st
              | Returns st \<Rightarrow>
                  (let st = fold (scan_style url) (style_strings soup) st
                   in Returns (fold (scan_comment url) (strings soup) st))))"

definition scan_url :: "env \<Rightarrow> string \<Rightarrow> finder \<Rightarrow> outcome" where
  "scan_url e url st =
     (let st = log (''Scanning URL: '' @ url) st;
          (html_content, st) = fetch_url_content e url st
      in if \<not> truthy html_content then Returns st
         else scan_page e url (the html_content) st)"

subsection \<open>\<^verbatim>\<open>print_summary\<close>\<close>

definition print_summary :: "finder \<Rightarrow> finder" where
  "print_summary st =
     (let st = print (CHR 0x0A # replicate 60 CHR ''='') st;
          st = (if found_flags st \<noteq> {} then
                  (let st = print (''[+] Total flags found: '' @ str_nat (card (found_flags st))) st;
                       st = print (CHR 0x0A # ''All flags:'') st
                   in fold (\<lambda>flag. print (''  '' @ flag)) (sorted_list_of_set (found_flags st)) st)
                else print ''[-] No flags found'' st)
      in print (replicate 60 CHR ''='') st)"

subsection \<open>\<^verbatim>\<open>main\<close>\<close>

text \<open>
  The namespace returned by \<^verbatim>\<open>parser.parse_args()\<close>: an option that was not given is \<^verbatim>\<open>None\<close>.
  The model starts where the command line has been parsed.
\<close>

record args =
  arg_url :: "string option"
  arg_files :: "string list option"
  arg_directory :: "string option"
  arg_verbose :: bool

definition truthy_list :: "string list option \<Rightarrow> bool" where
  "truthy_list x = (case x of None \<Rightarrow> False | Some xs \<Rightarrow> xs \<noteq> [])"

text \<open>
  How the process ends: its exit status, everything printed on standard output, the finder if
  one was created, and the message of the exception that ended the process, if one did.
  \<^verbatim>\<open>main\<close> catches nothing, so an exception that leaves \<^verbatim>\<open>scan_url\<close> ends the process there: Python
  prints the traceback on standard error and the exit status is 1.
\<close>

record exit =
  exit_status :: int
  printed :: "string list"
  last_finder :: "finder option"
  uncaught :: "string option"

definition main :: "env \<Rightarrow> args \<Rightarrow> exit" where
  "main e a =
     (if \<not> (truthy (arg_url a) \<or> truthy_list (arg_files a) \<or> truthy (arg_directory a)) then
        \<lparr>exit_status = 1, printed = [usage_help e], last_finder = None, uncaught = None\<rparr>
      else
        (let finder = FlagFinder (arg_verbose a);
             finder = print ''[*] Starting flag search...'' finder;
             finder = print (''[*] Looking for pattern: USU{...}'' @ [CHR 0x0A]) finder
         in case (if truthy (arg_url a) then scan_url e (the (arg_url a)) finder
                  else Returns finder) of
              Raises msg finder \<Rightarrow>
                \<lparr>exit_status = 1, printed = stdout finder, last_finder = Some finder,
                 uncaught = Some msg\<rparr>
            | Returns finder \<Rightarrow>
                (let finder = (if truthy_list (arg_files a) then
                                 fold (scan_file e) (the (arg_files a)) finder
                               else finder);
                     finder = (if truthy (arg_directory a) then
                                 scan_directory e (the (arg_directory a)) None finder
                               else finder);
                     finder = print_summary finder
                 in \<lparr>exit_status = 0, printed = stdout finder, last_finder = Some finder,
                     uncaught = None\<rparr>)))"

section \<open>Specification-level notions\<close>

subsection \<open>Flags and their occurrences in a text\<close>

text \<open>
  A flag as the data model describes it: the text \<^verbatim>\<open>USU{\<close>, one or more characters none of which is
  a closing brace, and a closing brace.
\<close>

definition flag_open :: string where
  "flag_open = ''USU{''"

definition is_flag :: "string \<Rightarrow> bool" where
  "is_flag f =
     (take 4 f = flag_open \<and> 6 \<le> length f \<and> last f = CHR ''}'' \<and>
      CHR ''}'' \<notin> set (butlast (drop 4 f)))"

text \<open>The flag \<open>f\<close> occurs in the text at position \<open>i\<close>.\<close>

definition occurs :: "string \<Rightarrow> nat \<Rightarrow> string \<Rightarrow> bool" where
  "occurs text i f = (is_flag f \<and> i + length f \<le> length text \<and> take (length f) (drop i text) = f)"

text \<open>
  The non-overlapping occurrences of the pattern, from the left: the first listed flag is the
  occurrence at the least position where a flag starts, and the others are those of the text
  behind it; the list is empty when no flag occurs anywhere.
\<close>

inductive leftmost_matches :: "string \<Rightarrow> string list \<Rightarrow> bool" where
  no_match: "(\<And>i f. \<not> occurs text i f) \<Longrightarrow> leftmost_matches text []"
| first_match: "occurs text i f \<Longrightarrow> (\<And>j g. j < i \<Longrightarrow> \<not> occurs text j g) \<Longrightarrow>
     leftmost_matches (drop (i + length f) text) fs \<Longrightarrow> leftmost_matches text (f # fs)"

subsection \<open>Reports, histories and the summary\<close>

text \<open>The two lines printed for a flag when it is first found.\<close>

definition flag_block :: "string \<Rightarrow> string \<Rightarrow> string list" where
  "flag_block source flag = [CHR 0x0A # ''[+] FLAG FOUND: '' @ flag, ''    Source: '' @ source]"

text \<open>
  The matches that are reported: those not in the set \<open>seen\<close> so far, each at its first
  occurrence only.
\<close>

fun first_time :: "string set \<Rightarrow> string list \<Rightarrow> string list" where
  "first_time seen [] = []"
| "first_time seen (f # fs) =
     (if f \<in> seen then first_time seen fs else f # first_time (insert f seen) fs)"

text \<open>All matches in the texts of a list of calls of \<^verbatim>\<open>find_flags_in_text\<close>.\<close>

definition flags_of :: "(string \<times> string) list \<Rightarrow> string set" where
  "flags_of calls = set (concat (map (\<lambda>c. findall (fst c)) calls))"

text \<open>
  An operation extends the finder when it only adds calls to the history of scans, the set of
  flags grows by exactly the matches in the texts of these calls, and verbosity is kept.
\<close>

definition extends :: "finder \<Rightarrow> finder \<Rightarrow> bool" where
  "extends st st' =
     (take (length (scanned st)) (scanned st') = scanned st \<and>
      found_flags st' = found_flags st \<union> flags_of (drop (length (scanned st)) (scanned st')) \<and>
      verbose st' = verbose st)"


text \<open>The block that ends a run, for the flags in the order listed.\<close>

definition summary :: "string list \<Rightarrow> string list" where
  "summary flags =
     (if flags = [] then
        [CHR 0x0A # replicate 60 CHR ''='', ''[-] No flags found'', replicate 60 CHR ''='']
      else
        [CHR 0x0A # replicate 60 CHR ''='', ''[+] Total flags found: '' @ str_nat (length flags),
         CHR 0x0A # ''All flags:'']
        @ map (\<lambda>flag. ''  '' @ flag) flags @ [replicate 60 CHR ''=''])"

text \<open>
  The parts of a run of \<^verbatim>\<open>main\<close> that scans: the finder after the two lines of the banner, the
  scan of the URL if one is asked for, the scans of the files and of the directory that
  follow when the scan of the URL returns, and the finder when scanning has ended, by the end
  of the last scan or by an exception.
\<close>

definition banner :: "args \<Rightarrow> finder" where
  "banner a =
     print (''[*] Looking for pattern: USU{...}'' @ [CHR 0x0A])
       (print ''[*] Starting flag search...'' (FlagFinder (arg_verbose a)))"

definition url_scan :: "env \<Rightarrow> args \<Rightarrow> outcome" where
  "url_scan e a =
     (if truthy (arg_url a) then scan_url e (the (arg_url a)) (banner a) else Returns (banner a))"

definition later_scans :: "env \<Rightarrow> args \<Rightarrow> finder \<Rightarrow> finder" where
  "later_scans e a st =
     (if truthy (arg_directory a) then scan_directory e (the (arg_directory a)) None else id)
       ((if truthy_list (arg_files a) then fold (scan_file e) (the (arg_files a)) else id) st)"

definition run_scans :: "env \<Rightarrow> args \<Rightarrow> finder" where
  "run_scans e a =
     (case url_scan e a of
        Raises msg st \<Rightarrow> st
      | Returns st \<Rightarrow> later_scans e a st)"

subsection \<open>The files of a directory tree\<close>

text \<open>
  The file called \<open>name\<close> lies in the directory tree rooted at \<open>dirpath\<close>, at any depth, and \<open>p\<close>
  is its path as \<^verbatim>\<open>os.path.join\<close> builds it on the way down.
\<close>

inductive file_in :: "node \<Rightarrow> string \<Rightarrow> string \<Rightarrow> string \<Rightarrow> bool" where
  here: "(name, File) \<in> set es \<Longrightarrow> file_in (Dir es) dirpath name (path_join dirpath name)"
| below: "(d, sub) \<in> set es \<Longrightarrow> file_in sub (path_join dirpath d) name p \<Longrightarrow>
     file_in (Dir es) dirpath name p"

text \<open>The paths handed to \<^verbatim>\<open>scan_file\<close> by a directory scan, in order.\<close>

definition delegated :: "env \<Rightarrow> string \<Rightarrow> string list \<Rightarrow> string list" where
  "delegated e directory extensions = concat (map (selected extensions) (walk e directory))"

subsection \<open>A sample environment\<close>

text \<open>
  A small world for evaluating the program: two directories with a few files, a site with a
  page that embeds a script and a style sheet, a page whose script reference \<^verbatim>\<open>urljoin\<close> rejects,
  and some URLs that fail in different ways.
\<close>

definition broken_page :: string where
  "broken_page =
     ''<html><p>USU{b1}</p><script src='' @ [CHR 0x22] @ ''//['' @ [CHR 0x22] @
     ''></script><style>/* USU{b2} */</style></html>''"

definition sample_page :: string where
  "sample_page = ''<html><script src=app.js></script><style>p { color: red } /* USU{y2} */</style></html>''"

definition sample_env :: env where
  "sample_env =
     \<lparr>open_read = (\<lambda>path.
        if path = ''flat/a.js'' then Inr ''const key = USU{x1}; // USU{x1}''
        else if path = ''flat/a.txt'' then Inr ''USU{x2}''
        else if path = ''site/lib/c.js'' then Inr ''USU{x0}''
        else if path = ''site/lib/b.JS'' then Inr ''USU{x3}''
        else if path = ''site/index.html'' then Inr ''nothing here: USU{}''
        else Inl ''[Errno 2] No such file or directory''),
      decode_ignore = (\<lambda>bytes. bytes),
      tree = (\<lambda>path.
        if path = ''flat'' then Some (Dir [(''a.js'', File), (''a.txt'', File)])
        else if path = ''site'' then
          Some (Dir [(''index.html'', File), (''lib'', Dir [(''b.JS'', File), (''c.js'', File)])])
        else None),
      session_get = (\<lambda>url.
        if url = ''http://ctf.example/'' then
          Inr \<lparr>status_code = 200, reason = ''OK'', resp_url = url, resp_text = sample_page\<rparr>
        else if url = ''http://ctf.example/app.js'' then
          Inr \<lparr>status_code = 200, reason = ''OK'', resp_url = url, resp_text = ''f(USU{y1})''\<rparr>
        else if url = ''http://ctf.example/broken'' then
          Inr \<lparr>status_code = 200, reason = ''OK'', resp_url = url, resp_text = broken_page\<rparr>
        else if url = ''http://ctf.example/empty'' then
          Inr \<lparr>status_code = 200, reason = ''OK'', resp_url = url, resp_text = ''''\<rparr>
        else if url = ''http://ctf.example/cached'' then
          Inr \<lparr>status_code = 304, reason = ''Not Modified'', resp_url = url, resp_text = ''USU{c1}''\<rparr>
        else if url = ''http://ctf.example/gone'' then
          Inr \<lparr>status_code = 404, reason = ''Not Found'', resp_url = url, resp_text = ''USU{n1}''\<rparr>
        else Inl ''Connection refused''),
      BeautifulSoup = (\<lambda>html.
        if html = sample_page then
          \<lparr>scripts = [\<lparr>src = Some ''app.js'', script_string = None\<rparr>],
           stylesheet_hrefs = [],
           style_strings = [Some ''p { color: red } /* USU{y2} */''],
           strings = [''p { color: red } /* USU{y2} */'']\<rparr>
        else if html = broken_page then
          \<lparr>scripts = [\<lparr>src = Some ''//['', script_string = None\<rparr>],
           stylesheet_hrefs = [],
           style_strings = [Some ''/* USU{b2} */''],
           strings = [''USU{b1}'', ''/* USU{b2} */'']\<rparr>
        else \<lparr>scripts = [], stylesheet_hrefs = [], style_strings = [], strings = []\<rparr>),
      urljoin = (\<lambda>base url. if url = ''//['' then Inl ''Invalid IPv6 URL'' else Inr (base @ url)),
      usage_help = ''usage: flag_finder.py [-h] [-u URL] [-f FILES [FILES ...]] [-d DIRECTORY] [-v]''\<rparr>"

definition sample_args :: args where
  "sample_args =
     \<lparr>arg_url = None, arg_files = Some [''flat/a.txt'', ''flat/a.js'', ''nope.txt''],
      arg_directory = None, arg_verbose = False\<rparr>"

text \<open>
  A command line that asks for the page with the script reference \<^verbatim>\<open>//[\<close> and for a file, and one
  that asks for all three kinds of scan.
\<close>

definition broken_args :: args where
  "broken_args =
     \<lparr>arg_url = Some ''http://ctf.example/broken'', arg_files = Some [''flat/a.txt''],
      arg_directory = None, arg_verbose = False\<rparr>"


definition all_args :: args where
  "all_args =
     \<lparr>arg_url = Some ''http://ctf.example/'', arg_files = Some [''flat/a.txt'', ''nope.txt''],
      arg_directory = Some ''flat'', arg_verbose = False\<rparr>"

section \<open>The matcher\<close>

lemma length_flag_open: "length flag_open = 4"
  by (simp add: flag_open_def)

lemma match_here_alt:
  "match_here s =
     (if take 4 s = flag_open then
        (if takeWhile (\<lambda>c. c \<noteq> CHR ''}'') (drop 4 s) \<noteq> [] \<and>
            dropWhile (\<lambda>c. c \<noteq> CHR ''}'') (drop 4 s) \<noteq> []
         then Some (flag_open @ takeWhile (\<lambda>c. c \<noteq> CHR ''}'') (drop 4 s) @ [CHR ''}''],
                    tl (dropWhile (\<lambda>c. c \<noteq> CHR ''}'') (drop 4 s)))
         else None)
      else None)"
  by (simp only: match_here_def flag_open_def Let_def)

lemma is_flag_iff:
  "is_flag f \<longleftrightarrow> (\<exists>body. f = flag_open @ body @ [CHR ''}''] \<and> body \<noteq> [] \<and> CHR ''}'' \<notin> set body)"
proof
  assume h: "is_flag f"
  define r where "r = drop 4 f"
  have f: "f = flag_open @ r" using h unfolding is_flag_def r_def
    by (metis append_take_drop_id)
  have "6 \<le> length f" using h unfolding is_flag_def by blast
  then have len: "2 \<le> length r" unfolding r_def length_drop by linarith
  then have rne: "r \<noteq> []" by auto
  have "last f = CHR ''}''" using h unfolding is_flag_def by blast
  then have "last r = CHR ''}''" using rne f by (metis last_appendR)
  then have r: "r = butlast r @ [CHR ''}'']" using rne by (metis append_butlast_last_id)
  have "butlast r \<noteq> []" using len by (cases r rule: rev_cases) auto
  moreover have "CHR ''}'' \<notin> set (butlast r)" using h unfolding is_flag_def r_def by blast
  ultimately show "\<exists>body. f = flag_open @ body @ [CHR ''}''] \<and> body \<noteq> [] \<and> CHR ''}'' \<notin> set body"
    using f r by metis
next
  assume "\<exists>body. f = flag_open @ body @ [CHR ''}''] \<and> body \<noteq> [] \<and> CHR ''}'' \<notin> set body"
  then obtain body where f: "f = flag_open @ body @ [CHR ''}'']" and b: "body \<noteq> []"
    and c: "CHR ''}'' \<notin> set body" by blast
  have "take 4 f = flag_open" unfolding f using length_flag_open by simp
  moreover have "1 \<le> length body" using b by (cases body) simp_all
  then have "6 \<le> length f" unfolding f using length_flag_open by simp
  moreover have "last f = CHR ''}''" unfolding f by simp
  moreover have "drop 4 f = body @ [CHR ''}'']" unfolding f using length_flag_open by simp
  then have "butlast (drop 4 f) = body" by simp
  ultimately show "is_flag f" unfolding is_flag_def using c by simp
qed

lemma match_here_flag:
  assumes "body \<noteq> []" "CHR ''}'' \<notin> set body"
  shows "match_here (flag_open @ body @ [CHR ''}''] @ rest) = Some (flag_open @ body @ [CHR ''}''], rest)"
proof -
  have "\<And>x. x \<in> set body \<Longrightarrow> x \<noteq> CHR ''}''" using assms(2) by blast
  then have t: "takeWhile (\<lambda>c. c \<noteq> CHR ''}'') (body @ CHR ''}'' # rest) = body"
    and d: "dropWhile (\<lambda>c. c \<noteq> CHR ''}'') (body @ CHR ''}'' # rest) = CHR ''}'' # rest"
    by (simp_all add: takeWhile_append2 dropWhile_append2)
  show ?thesis using assms(1) length_flag_open by (simp add: match_here_alt t d)
qed

lemma match_here_SomeD:
  assumes "match_here s = Some (f, rest)"
  shows "is_flag f \<and> s = f @ rest"
proof -
  let ?P = "\<lambda>c. c \<noteq> CHR ''}''"
  have t4: "take 4 s = flag_open"
    using assms by (cases "take 4 s = flag_open") (simp_all add: match_here_alt)
  have bd: "takeWhile ?P (drop 4 s) \<noteq> [] \<and> dropWhile ?P (drop 4 s) \<noteq> []"
    using assms t4 by (simp add: match_here_alt split: if_splits)
  have "Some (f, rest) = Some (flag_open @ takeWhile ?P (drop 4 s) @ [CHR ''}''], tl (dropWhile ?P (drop 4 s)))"
    using assms t4 by (simp add: match_here_alt split: if_splits)
  then have f: "f = flag_open @ takeWhile ?P (drop 4 s) @ [CHR ''}'']"
    and r: "rest = tl (dropWhile ?P (drop 4 s))" by simp_all
  have "dropWhile ?P (drop 4 s) \<noteq> []" using bd by blast
  then have "\<not> ?P (hd (dropWhile ?P (drop 4 s)))" by (rule hd_dropWhile)
  then have "hd (dropWhile ?P (drop 4 s)) = CHR ''}''" by simp
  then have dd: "dropWhile ?P (drop 4 s) = CHR ''}'' # rest" using bd r by (metis list.collapse)
  have "s = take 4 s @ takeWhile ?P (drop 4 s) @ dropWhile ?P (drop 4 s)" by simp
  then have s: "s = f @ rest" unfolding f dd t4 by simp
  have "CHR ''}'' \<notin> set (takeWhile ?P (drop 4 s))" by (auto dest: set_takeWhileD)
  then have "is_flag f" unfolding is_flag_iff f using bd by blast
  with s show ?thesis by simp
qed

lemma match_here_Some_iff: "match_here s = Some (f, rest) \<longleftrightarrow> is_flag f \<and> s = f @ rest"
proof
  assume h: "is_flag f \<and> s = f @ rest"
  then obtain body where "f = flag_open @ body @ [CHR ''}'']" "body \<noteq> []" "CHR ''}'' \<notin> set body"
    unfolding is_flag_iff by blast
  then show "match_here s = Some (f, rest)" using h match_here_flag [of body rest] by simp
qed (rule match_here_SomeD)

lemma occurs_iff:
  "occurs text i f \<longleftrightarrow> match_here (drop i text) = Some (f, drop (i + length f) text)"
proof -
  have "drop i text = f @ drop (i + length f) text \<longleftrightarrow>
        i + length f \<le> length text \<and> take (length f) (drop i text) = f" if "is_flag f"
  proof
    assume h: "drop i text = f @ drop (i + length f) text"
    have "length (drop i text) = length f + length (drop (i + length f) text)"
      by (subst h) simp
    moreover have "6 \<le> length f" using that unfolding is_flag_def by blast
    ultimately have "i + length f \<le> length text" unfolding length_drop by linarith
    moreover have "take (length f) (drop i text) = f" by (subst h) simp
    ultimately show "i + length f \<le> length text \<and> take (length f) (drop i text) = f" by simp
  next
    assume h: "i + length f \<le> length text \<and> take (length f) (drop i text) = f"
    have "drop i text = take (length f) (drop i text) @ drop (length f) (drop i text)"
      by (rule append_take_drop_id [symmetric])
    also have "\<dots> = f @ drop (i + length f) text" using h by (simp add: add.commute)
    finally show "drop i text = f @ drop (i + length f) text" .
  qed
  then show ?thesis unfolding occurs_def match_here_Some_iff by auto
qed


lemma match_here_Nil: "match_here [] = None"
proof -
  have "flag_open \<noteq> []" by (simp add: flag_open_def)
  then have "take 4 [] \<noteq> flag_open" by simp
  then show ?thesis by (simp add: match_here_alt)
qed

lemma match_here_rest:
  assumes "match_here s = Some (f, rest)"
  shows "rest = drop (length f) s"
proof -
  have "s = f @ rest" using assms match_here_SomeD by blast
  then show ?thesis by simp
qed

lemma not_occurs_iff: "(\<forall>f. \<not> occurs s i f) \<longleftrightarrow> match_here (drop i s) = None"
proof
  assume h: "\<forall>f. \<not> occurs s i f"
  show "match_here (drop i s) = None"
  proof (cases "match_here (drop i s)")
    case (Some p)
    obtain f rest where p: "p = (f, rest)" by (cases p)
    have "rest = drop (length f) (drop i s)" using Some p match_here_rest by blast
    then have "rest = drop (i + length f) s" by (simp add: add.commute)
    then have "occurs s i f" using Some p occurs_iff by simp
    then show ?thesis using h by blast
  qed simp
next
  assume "match_here (drop i s) = None"
  then show "\<forall>f. \<not> occurs s i f" by (simp add: occurs_iff)
qed

lemma findall_match:
  assumes "match_here s = Some (f, rest)"
  shows "findall s = f # findall rest"
proof (cases s)
  case Nil
  then show ?thesis using assms match_here_Nil by simp
next
  case (Cons c cs)
  then show ?thesis using assms by simp
qed

lemma findall_skip:
  "(\<And>j. j < i \<Longrightarrow> match_here (drop j s) = None) \<Longrightarrow> findall s = findall (drop i s)"
proof (induction i arbitrary: s)
  case 0
  then show ?case by simp
next
  case (Suc i)
  show ?case
  proof (cases s)
    case Nil
    then show ?thesis by simp
  next
    case (Cons c cs)
    have "match_here (drop 0 s) = None" using Suc.prems by blast
    then have a: "findall s = findall cs" using Cons by simp
    have "\<And>j. j < i \<Longrightarrow> match_here (drop j cs) = None"
    proof -
      fix j assume "j < i"
      then have "match_here (drop (Suc j) s) = None" using Suc.prems by simp
      then show "match_here (drop j cs) = None" using Cons by simp
    qed
    then have "findall cs = findall (drop i cs)" by (rule Suc.IH)
    then show ?thesis using a Cons by simp
  qed
qed

lemma leftmost_matches_Cons:
  assumes "leftmost_matches cs fs" and "match_here (c # cs) = None"
  shows "leftmost_matches (c # cs) fs"
  using assms(1)
proof (cases rule: leftmost_matches.cases)
  case no_match
  have "\<not> occurs (c # cs) i f" for i f
  proof (cases i)
    case 0
    then show ?thesis using assms(2) by (simp add: occurs_iff)
  next
    case (Suc j)
    have "\<not> occurs cs j f" using no_match by blast
    then show ?thesis using Suc by (simp add: occurs_iff)
  qed
  then show ?thesis using no_match leftmost_matches.no_match by blast
next
  case (first_match i f fs')
  have a: "occurs (c # cs) (Suc i) f" using first_match(2) by (simp add: occurs_iff)
  have b: "\<not> occurs (c # cs) j g" if "j < Suc i" for j g
  proof (cases j)
    case 0
    then show ?thesis using assms(2) by (simp add: occurs_iff)
  next
    case (Suc k)
    then have "k < i" using that by simp
    then have "\<not> occurs cs k g" using first_match(3) by blast
    then show ?thesis using Suc by (simp add: occurs_iff)
  qed
  have c: "leftmost_matches (drop (Suc i + length f) (c # cs)) fs'" using first_match(4) by simp
  show ?thesis unfolding first_match(1) using a b c by (rule leftmost_matches.first_match)
qed

lemma leftmost_matches_findall: "leftmost_matches s (findall s)"
proof (induction s rule: findall.induct)
  case 1
  have "\<not> occurs [] i f" for i f by (simp add: occurs_iff match_here_Nil)
  then show ?case by (simp add: leftmost_matches.no_match)
next
  case (2 c cs)
  show ?case
  proof (cases "match_here (c # cs)")
    case None
    then have "leftmost_matches cs (findall cs)" using "2.IH" by blast
    then have "leftmost_matches (c # cs) (findall cs)" using None by (rule leftmost_matches_Cons)
    then show ?thesis using None by simp
  next
    case (Some p)
    obtain f rest where p: "p = (f, rest)" by (cases p)
    have r: "rest = drop (0 + length f) (c # cs)" using Some p match_here_rest by fastforce
    have a: "occurs (c # cs) 0 f" using Some p r by (simp add: occurs_iff)
    have b: "\<And>j g. j < (0::nat) \<Longrightarrow> \<not> occurs (c # cs) j g" by simp
    have "leftmost_matches rest (findall rest)" using "2.IH" Some p by blast
    then have c: "leftmost_matches (drop (0 + length f) (c # cs)) (findall rest)" using r by simp
    have "leftmost_matches (c # cs) (f # findall rest)"
      using a b c by (rule leftmost_matches.first_match)
    then show ?thesis using Some p by simp
  qed
qed

lemma leftmost_matches_unique: "leftmost_matches s fs \<Longrightarrow> findall s = fs"
proof (induction rule: leftmost_matches.induct)
  case (no_match s)
  then have "\<And>j. j < length s \<Longrightarrow> match_here (drop j s) = None"
    using not_occurs_iff by blast
  then have "findall s = findall (drop (length s) s)" by (rule findall_skip)
  then show ?case by simp
next
  case (first_match s i f fs)
  have "\<And>j. j < i \<Longrightarrow> match_here (drop j s) = None"
    using first_match(2) not_occurs_iff by blast
  then have "findall s = findall (drop i s)" by (rule findall_skip)
  moreover have "match_here (drop i s) = Some (f, drop (i + length f) s)"
    using first_match(1) by (simp add: occurs_iff)
  ultimately show ?case using first_match.IH findall_match by simp
qed

lemma findall_iff: "leftmost_matches s fs \<longleftrightarrow> fs = findall s"
  using leftmost_matches_findall leftmost_matches_unique by blast

section \<open>The finder under the scan operations\<close>

lemma fold_report_flag:
  "fold (report_flag source) ms st =
     st\<lparr>found_flags := found_flags st \<union> set ms,
        stdout := stdout st @ concat (map (flag_block source) (first_time (found_flags st) ms))\<rparr>"
proof (induction ms arbitrary: st)
  case Nil
  show ?case by simp
next
  case (Cons m ms)
  show ?case
  proof (cases "m \<in> found_flags st")
    case True
    then have "report_flag source m st = st" by (simp add: report_flag_def)
    moreover have "found_flags st \<union> set (m # ms) = found_flags st \<union> set ms" using True by auto
    ultimately show ?thesis using True Cons.IH [of st] by simp
  next
    case False
    define st1 where "st1 = report_flag source m st"
    have f1: "found_flags st1 = insert m (found_flags st)"
      and o1: "stdout st1 = stdout st @ flag_block source m"
      and r1: "st1 = st\<lparr>found_flags := insert m (found_flags st), stdout := stdout st @ flag_block source m\<rparr>"
      using False by (simp_all add: st1_def report_flag_def print_def flag_block_def)
    have "fold (report_flag source) (m # ms) st = fold (report_flag source) ms st1"
      by (simp add: st1_def)
    also have "\<dots> = st1\<lparr>found_flags := found_flags st1 \<union> set ms,
        stdout := stdout st1 @ concat (map (flag_block source) (first_time (found_flags st1) ms))\<rparr>"
      by (rule Cons.IH)
    also have "\<dots> = st\<lparr>found_flags := found_flags st \<union> set (m # ms),
        stdout := stdout st @ concat (map (flag_block source) (first_time (found_flags st) (m # ms)))\<rparr>"
      using False unfolding f1 o1 by (simp add: r1)
    finally show ?thesis .
  qed
qed

lemma find_flags_in_text_eq:
  "find_flags_in_text t source st =
     st\<lparr>scanned := scanned st @ [(t, source)],
        found_flags := found_flags st \<union> set (findall t),
        stdout := stdout st @ concat (map (flag_block source) (first_time (found_flags st) (findall t)))\<rparr>"
  by (cases "findall t = []") (simp_all add: find_flags_in_text_def Let_def fold_report_flag)

lemma extends_refl: "extends st st"
  by (simp add: extends_def flags_of_def)

lemma extendsI:
  assumes "scanned st' = scanned st @ new" "found_flags st' = found_flags st \<union> flags_of new"
    "verbose st' = verbose st"
  shows "extends st st'"
  using assms by (simp add: extends_def)

lemma flags_of_append: "flags_of (xs @ ys) = flags_of xs \<union> flags_of ys"
  by (simp add: flags_of_def)

lemma extends_trans [trans]:
  assumes "extends a b" "extends b c"
  shows "extends a c"
proof -
  define n1 where "n1 = drop (length (scanned a)) (scanned b)"
  define n2 where "n2 = drop (length (scanned b)) (scanned c)"
  have b: "scanned b = scanned a @ n1" using assms(1) unfolding extends_def n1_def
    by (metis append_take_drop_id)
  have c: "scanned c = scanned b @ n2" using assms(2) unfolding extends_def n2_def
    by (metis append_take_drop_id)
  have "scanned c = scanned a @ (n1 @ n2)" using b c by simp
  moreover have "found_flags c = found_flags a \<union> flags_of (n1 @ n2)"
    using assms unfolding extends_def n1_def n2_def flags_of_append by auto
  moreover have "verbose c = verbose a" using assms unfolding extends_def by simp
  ultimately show ?thesis by (rule extendsI)
qed

lemma extends_fold:
  assumes "\<And>x st. extends st (f x st)"
  shows "extends st (fold f xs st)"
proof (induction xs arbitrary: st)
  case Nil
  show ?case by (simp add: extends_refl)
next
  case (Cons x xs)
  have "extends st (f x st)" by (rule assms)
  moreover have "extends (f x st) (fold f xs (f x st))" by (rule Cons.IH)
  ultimately show ?case using extends_trans by simp
qed

lemma extends_print: "extends st (print line st)"
  by (simp add: extends_def print_def flags_of_def)

lemma extends_log: "extends st (log message st)"
  by (simp add: log_def extends_print extends_refl)

lemma extends_find_flags_in_text: "extends st (find_flags_in_text t source st)"
  by (rule extendsI [where new = "[(t, source)]"]) (simp_all add: find_flags_in_text_eq flags_of_def)

lemma extends_scan_file: "extends st (scan_file e filepath st)"
proof (cases "open_read e filepath")
  case (Inl msg)
  then show ?thesis by (simp add: scan_file_def extends_print)
next
  case (Inr bytes)
  then show ?thesis
    using extends_trans [OF extends_log extends_find_flags_in_text] by (simp add: scan_file_def)
qed

lemma extends_scan_directory: "extends st (scan_directory e directory extensions st)"
proof -
  have a: "extends s (fold (scan_file e) ps s)" for ps s
    by (rule extends_fold) (rule extends_scan_file)
  have b: "extends s (fold (\<lambda>t. fold (scan_file e) (selected x t)) ts s)" for x ts s
    by (rule extends_fold) (rule a)
  show ?thesis
    unfolding scan_directory_def Let_def by (rule extends_trans [OF extends_log b])
qed

lemma extends_fetch_url_content: "extends st (snd (fetch_url_content e url st))"
  unfolding fetch_url_content_def Let_def
  by (auto split: sum.splits option.splits intro: extends_log extends_trans [OF extends_log extends_print])

lemma extends_fetch_scan:
  "extends st (case fetch_url_content e u st of
                 (content, st') \<Rightarrow>
                   if truthy content then find_flags_in_text (the content) label st' else st')"
proof (cases "fetch_url_content e u st")
  case (Pair content st')
  have "extends st st'" using extends_fetch_url_content [of st e u] Pair by simp
  then show ?thesis
    using Pair extends_trans [OF _ extends_find_flags_in_text] by simp
qed

lemma extends_for_each:
  assumes "\<And>x st. extends st (finder_of (body x st))"
  shows "extends st (finder_of (for_each body xs st))"
proof (induction xs arbitrary: st)
  case Nil
  show ?case by (simp add: extends_refl)
next
  case (Cons x xs)
  have step: "extends st (finder_of (body x st))" by (rule assms)
  show ?case
  proof (cases "body x st")
    case (Returns st')
    have "extends st st'" using step Returns by simp
    moreover have "extends st' (finder_of (for_each body xs st'))" by (rule Cons.IH)
    ultimately have "extends st (finder_of (for_each body xs st'))" by (rule extends_trans)
    then show ?thesis using Returns by simp
  next
    case (Raises msg st')
    then show ?thesis using step by simp
  qed
qed

lemma for_each_Returns:
  "for_each body xs st = Returns fin \<Longrightarrow> fin = fold (\<lambda>x s. finder_of (body x s)) xs st"
proof (induction xs arbitrary: st)
  case Nil
  then show ?case by simp
next
  case (Cons x xs)
  show ?case
  proof (cases "body x st")
    case (Returns st')
    then have "for_each body xs st' = Returns fin" using Cons.prems by simp
    then have "fin = fold (\<lambda>x s. finder_of (body x s)) xs st'" by (rule Cons.IH)
    then show ?thesis using Returns by simp
  next
    case (Raises msg st')
    then show ?thesis using Cons.prems by simp
  qed
qed

lemma for_each_all_return:
  assumes "\<And>x s. x \<in> set xs \<Longrightarrow> \<exists>s'. body x s = Returns s'"
  shows "\<exists>fin. for_each body xs st = Returns fin"
  using assms
proof (induction xs arbitrary: st)
  case Nil
  show ?case by simp
next
  case (Cons x xs)
  obtain s' where s': "body x st = Returns s'" using Cons.prems [of x st] by auto
  have "\<exists>fin. for_each body xs s' = Returns fin"
    by (rule Cons.IH) (simp add: Cons.prems)
  then show ?case using s' by simp
qed

lemma extends_scan_script: "extends st (finder_of (scan_script e url script st))"
proof (cases "truthy (src script)")
  case False
  then show ?thesis
    unfolding scan_script_def by (simp add: extends_find_flags_in_text extends_refl)
next
  case True
  show ?thesis
  proof (cases "urljoin e url (the (src script))")
    case (Inl msg)
    then show ?thesis using True unfolding scan_script_def by (simp add: extends_refl)
  next
    case (Inr script_url)
    have "scan_script e url script st =
        Returns (case fetch_url_content e script_url st of
                   (content, st') \<Rightarrow>
                     if truthy content then
                       find_flags_in_text (the content) (script_url @ '' (JavaScript)'') st'
                     else st')"
      using True Inr unfolding scan_script_def by (simp add: split_def Let_def)
    then show ?thesis by (simp add: extends_fetch_scan)
  qed
qed

lemma extends_scan_link: "extends st (finder_of (scan_link e url href st))"
proof (cases "truthy href")
  case False
  then show ?thesis unfolding scan_link_def by (simp add: extends_refl)
next
  case True
  show ?thesis
  proof (cases "urljoin e url (the href)")
    case (Inl msg)
    then show ?thesis using True unfolding scan_link_def by (simp add: extends_refl)
  next
    case (Inr css_url)
    have "scan_link e url href st =
        Returns (case fetch_url_content e css_url st of
                   (content, st') \<Rightarrow>
                     if truthy content then
                       find_flags_in_text (the content) (css_url @ '' (CSS)'') st'
                     else st')"
      using True Inr unfolding scan_link_def by (simp add: split_def Let_def)
    then show ?thesis by (simp add: extends_fetch_scan)
  qed
qed

lemma extends_scan_style: "extends st (scan_style url style st)"
  unfolding scan_style_def by (simp add: extends_find_flags_in_text extends_refl)

lemma extends_scan_comment: "extends st (scan_comment url comment st)"
  unfolding scan_comment_def by (rule extends_find_flags_in_text)

text \<open>
  The finders on the way through \<^verbatim>\<open>scan_page\<close>: after the scan of the body, after the loop over
  the scripts and after the loop over the style sheet links, each as far as the loop got.
\<close>

lemma scan_page_cases:
  "scan_page e url html st =
     (case for_each (scan_script e url) (scripts (BeautifulSoup e html))
             (find_flags_in_text html (url @ '' (HTML)'') st) of
        Raises msg s \<Rightarrow> Raises msg s
      | Returns s \<Rightarrow>
          (case for_each (scan_link e url) (stylesheet_hrefs (BeautifulSoup e html)) s of
             Raises msg s \<Rightarrow> Raises msg s
           | Returns s \<Rightarrow>
               Returns (fold (scan_comment url) (strings (BeautifulSoup e html))
                          (fold (scan_style url) (style_strings (BeautifulSoup e html)) s))))"
  unfolding scan_page_def Let_def by (rule refl)

lemma extends_scan_page_from_body:
  "extends (find_flags_in_text html (url @ '' (HTML)'') st) (finder_of (scan_page e url html st))"
proof -
  define s1 where "s1 = find_flags_in_text html (url @ '' (HTML)'') st"
  define o2 where "o2 = for_each (scan_script e url) (scripts (BeautifulSoup e html)) s1"
  have e2: "extends s1 (finder_of o2)"
    unfolding o2_def by (rule extends_for_each) (rule extends_scan_script)
  show ?thesis
  proof (cases o2)
    case (Raises msg s)
    then have "scan_page e url html st = Raises msg s"
      unfolding scan_page_cases o2_def s1_def by simp
    then show ?thesis using e2 Raises unfolding s1_def by simp
  next
    case (Returns s2)
    define o3 where "o3 = for_each (scan_link e url) (stylesheet_hrefs (BeautifulSoup e html)) s2"
    have e3: "extends s2 (finder_of o3)"
      unfolding o3_def by (rule extends_for_each) (rule extends_scan_link)
    have e12: "extends s1 s2" using e2 Returns by simp
    show ?thesis
    proof (cases o3)
      case (Raises msg s)
      then have "scan_page e url html st = Raises msg s"
        using Returns unfolding scan_page_cases o2_def o3_def s1_def by simp
      moreover have "extends s1 s" using e12 e3 Raises extends_trans by fastforce
      ultimately show ?thesis unfolding s1_def by simp
    next
      case r3: (Returns s3)
      define s4 where "s4 = fold (scan_style url) (style_strings (BeautifulSoup e html)) s3"
      define s5 where "s5 = fold (scan_comment url) (strings (BeautifulSoup e html)) s4"
      have "extends s1 s2" by (rule e12)
      also have "extends s2 s3" using e3 r3 by simp
      also have "extends s3 s4" unfolding s4_def by (rule extends_fold) (rule extends_scan_style)
      also have "extends s4 s5" unfolding s5_def by (rule extends_fold) (rule extends_scan_comment)
      finally have "extends s1 s5" .
      moreover have "scan_page e url html st = Returns s5"
        using Returns r3 unfolding scan_page_cases o2_def o3_def s1_def s5_def s4_def by simp
      ultimately show ?thesis unfolding s1_def by simp
    qed
  qed
qed

lemma extends_scan_page: "extends st (finder_of (scan_page e url html st))"
  by (rule extends_trans [OF extends_find_flags_in_text extends_scan_page_from_body])

lemma scan_url_cases:
  assumes "fetch_url_content e url (log (''Scanning URL: '' @ url) st) = (content, st')"
  shows "scan_url e url st =
           (if \<not> truthy content then Returns st' else scan_page e url (the content) st')"
  unfolding scan_url_def Let_def assms by simp

lemma extends_scan_url: "extends st (finder_of (scan_url e url st))"
proof -
  define st0 where "st0 = log (''Scanning URL: '' @ url) st"
  obtain c st1 where f: "fetch_url_content e url st0 = (c, st1)" by (cases "fetch_url_content e url st0")
  have a: "extends st st0" unfolding st0_def by (rule extends_log)
  have "extends st0 st1" using extends_fetch_url_content [of st0 e url] f by simp
  then have b: "extends st st1" using a extends_trans by blast
  have "scan_url e url st = (if \<not> truthy c then Returns st1 else scan_page e url (the c) st1)"
    using f unfolding st0_def by (rule scan_url_cases)
  then show ?thesis using b extends_trans [OF b extends_scan_page] by simp
qed

lemma found_flags_print: "found_flags (print line st) = found_flags st"
  by (simp add: print_def)

lemma found_flags_fold_print: "found_flags (fold (\<lambda>x. print (g x)) xs st) = found_flags st"
  by (induction xs arbitrary: st) (simp_all add: found_flags_print)

lemma found_flags_print_summary: "found_flags (print_summary st) = found_flags st"
  unfolding print_summary_def Let_def
  by (simp add: found_flags_print found_flags_fold_print)

lemma findall_is_flag: "f \<in> set (findall s) \<Longrightarrow> is_flag f"
proof (induction s rule: findall.induct)
  case 1
  then show ?case by simp
next
  case (2 c cs)
  show ?case
  proof (cases "match_here (c # cs)")
    case None
    then show ?thesis using 2 by simp
  next
    case (Some p)
    obtain g rest where p: "p = (g, rest)" by (cases p)
    have "is_flag g" using Some p match_here_SomeD by blast
    moreover have "f = g \<or> f \<in> set (findall rest)" using "2.prems" Some p by simp
    moreover have "f \<in> set (findall rest) \<Longrightarrow> is_flag f" using "2.IH" Some p by blast
    ultimately show ?thesis by blast
  qed
qed

lemma flags_of_is_flag: "f \<in> flags_of calls \<Longrightarrow> is_flag f"
  unfolding flags_of_def using findall_is_flag by auto

lemma finite_flags_of: "finite (flags_of calls)"
  unfolding flags_of_def by simp

lemma extends_scanned:
  "extends st st' \<Longrightarrow> scanned st' = scanned st @ drop (length (scanned st)) (scanned st')"
  unfolding extends_def by (metis append_take_drop_id)

lemma extends_found:
  "extends st st' \<Longrightarrow>
     found_flags st' = found_flags st \<union> flags_of (drop (length (scanned st)) (scanned st'))"
  unfolding extends_def by blast

lemma extends_subset: "extends st st' \<Longrightarrow> found_flags st \<subseteq> found_flags st'"
  using extends_found by blast

lemma extends_finite: "extends st st' \<Longrightarrow> finite (found_flags st) \<Longrightarrow> finite (found_flags st')"
  using extends_found [of st st'] finite_flags_of by simp

lemma extends_is_flag:
  assumes "extends st st'" and "\<And>f. f \<in> found_flags st \<Longrightarrow> is_flag f" and "f \<in> found_flags st'"
  shows "is_flag f"
  using assms extends_found [of st st'] flags_of_is_flag by blast

lemma extends_all_scanned:
  assumes "extends st st'" and "found_flags st = flags_of (scanned st)"
  shows "found_flags st' = flags_of (scanned st')"
proof -
  have "flags_of (scanned st') = flags_of (scanned st) \<union> flags_of (drop (length (scanned st)) (scanned st'))"
    using extends_scanned [OF assms(1)] flags_of_append by metis
  then show ?thesis using extends_found [OF assms(1)] assms(2) by simp
qed

lemma stdout_fold_print: "stdout (fold (\<lambda>x. print (g x)) xs st) = stdout st @ map g xs"
  by (induction xs arbitrary: st) (simp_all add: print_def)

lemma stdout_print_summary:
  assumes "finite (found_flags st)"
  shows "stdout (print_summary st) = stdout st @ summary (sorted_list_of_set (found_flags st))"
proof (cases "found_flags st = {}")
  case True
  then show ?thesis by (simp add: print_summary_def summary_def print_def)
next
  case False
  then have "sorted_list_of_set (found_flags st) \<noteq> []" using assms by simp
  moreover have "length (sorted_list_of_set (found_flags st)) = card (found_flags st)" by simp
  ultimately show ?thesis using False
    by (simp add: print_summary_def summary_def Let_def stdout_fold_print found_flags_print print_def)
qed

lemma extends_banner: "extends (FlagFinder (arg_verbose a)) (banner a)"
  unfolding banner_def by (rule extends_trans [OF extends_print extends_print])

lemma extends_url_scan: "extends (banner a) (finder_of (url_scan e a))"
  unfolding url_scan_def by (simp add: extends_scan_url extends_refl)

lemma extends_later_scans: "extends st (later_scans e a st)"
proof -
  define s2 where
    "s2 = (if truthy_list (arg_files a) then fold (scan_file e) (the (arg_files a)) else id) st"
  have "extends st s2" unfolding s2_def
    by (simp add: extends_fold [of "scan_file e", OF extends_scan_file] extends_refl)
  also have "extends s2 (later_scans e a st)" unfolding later_scans_def s2_def [symmetric]
    by (simp add: extends_scan_directory extends_refl)
  finally show ?thesis .
qed

lemma run_scans_Returns: "url_scan e a = Returns st \<Longrightarrow> run_scans e a = later_scans e a st"
  and run_scans_Raises: "url_scan e a = Raises msg st \<Longrightarrow> run_scans e a = st"
  by (simp_all add: run_scans_def)

lemma extends_run_scans: "extends (FlagFinder (arg_verbose a)) (run_scans e a)"
proof -
  have "extends (FlagFinder (arg_verbose a)) (banner a)" by (rule extends_banner)
  also have "extends (banner a) (finder_of (url_scan e a))" by (rule extends_url_scan)
  also have "extends (finder_of (url_scan e a)) (run_scans e a)"
    by (cases "url_scan e a") (simp_all add: run_scans_def extends_later_scans extends_refl)
  finally show ?thesis .
qed

lemma main_usage:
  assumes "\<not> (truthy (arg_url a) \<or> truthy_list (arg_files a) \<or> truthy (arg_directory a))"
  shows "main e a =
           \<lparr>exit_status = 1, printed = [usage_help e], last_finder = None, uncaught = None\<rparr>"
  using assms unfolding main_def by simp

lemma main_url_scan:
  assumes "truthy (arg_url a) \<or> truthy_list (arg_files a) \<or> truthy (arg_directory a)"
  shows "main e a =
     (case url_scan e a of
        Raises msg st \<Rightarrow>
          \<lparr>exit_status = 1, printed = stdout st, last_finder = Some st, uncaught = Some msg\<rparr>
      | Returns st \<Rightarrow>
          \<lparr>exit_status = 0, printed = stdout (print_summary (later_scans e a st)),
           last_finder = Some (print_summary (later_scans e a st)), uncaught = None\<rparr>)"
proof -
  have "main e a =
     (case url_scan e a of
        Raises msg finder \<Rightarrow>
          \<lparr>exit_status = 1, printed = stdout finder, last_finder = Some finder, uncaught = Some msg\<rparr>
      | Returns finder \<Rightarrow>
          (let finder = later_scans e a finder; finder = print_summary finder
           in \<lparr>exit_status = 0, printed = stdout finder, last_finder = Some finder,
               uncaught = None\<rparr>))"
    using assms unfolding main_def url_scan_def banner_def later_scans_def Let_def
    by (simp split: outcome.splits)
  then show ?thesis by (cases "url_scan e a") (simp_all add: Let_def)
qed

lemma main_returns:
  assumes "truthy (arg_url a) \<or> truthy_list (arg_files a) \<or> truthy (arg_directory a)"
    and "url_scan e a = Returns st"
  shows "main e a =
           \<lparr>exit_status = 0, printed = stdout (print_summary (run_scans e a)),
            last_finder = Some (print_summary (run_scans e a)), uncaught = None\<rparr>"
  using main_url_scan [OF assms(1), of e] assms(2) by (simp add: run_scans_def)

lemma main_raises:
  assumes "truthy (arg_url a) \<or> truthy_list (arg_files a) \<or> truthy (arg_directory a)"
    and "url_scan e a = Raises msg st"
  shows "main e a =
           \<lparr>exit_status = 1, printed = stdout (run_scans e a),
            last_finder = Some (run_scans e a), uncaught = Some msg\<rparr>"
  using main_url_scan [OF assms(1), of e] assms(2) by (simp add: run_scans_def)

lemma found_flags_FlagFinder: "found_flags (FlagFinder v) = {}" and scanned_FlagFinder: "scanned (FlagFinder v) = []"
  by (simp_all add: FlagFinder_def)

lemma run_scans_found: "found_flags (run_scans e a) = flags_of (scanned (run_scans e a))"
  by (rule extends_all_scanned [OF extends_run_scans])
     (simp add: found_flags_FlagFinder scanned_FlagFinder flags_of_def)

lemma finite_run_scans: "finite (found_flags (run_scans e a))"
  by (simp add: run_scans_found finite_flags_of)

section \<open>The claims\<close>

subsection \<open>C1: what the matcher extracts\<close>

lemma no_occurrence_iff: "(\<forall>i f. \<not> occurs s i f) \<longleftrightarrow> findall s = []"
proof
  assume "\<forall>i f. \<not> occurs s i f"
  then have "leftmost_matches s []" by (simp add: leftmost_matches.no_match)
  then show "findall s = []" by (rule leftmost_matches_unique)
next
  assume "findall s = []"
  then have "leftmost_matches s []" using leftmost_matches_findall [of s] by simp
  then show "\<forall>i f. \<not> occurs s i f" by (cases rule: leftmost_matches.cases) blast
qed

text \<open>
  C1. For every text and source label, \<^verbatim>\<open>find_flags_in_text\<close> extracts exactly the non-overlapping
  occurrences of the pattern from the left, each ending at the first closing brace: there is
  exactly one list of leftmost matches, all its members are flags, and the set of flags grows
  by exactly its members. The text \<^verbatim>\<open>USU{a}extra}\<close> yields the one flag \<^verbatim>\<open>USU{a}\<close>, the text \<^verbatim>\<open>USU{}\<close>
  yields none, and a text in which the pattern occurs nowhere adds no flag and prints nothing.
\<close>

theorem find_flags_in_text_extracts_pattern:
  "(\<exists>fs. leftmost_matches t fs \<and> (\<forall>gs. leftmost_matches t gs \<longrightarrow> gs = fs) \<and>
         (\<forall>f \<in> set fs. is_flag f) \<and>
         found_flags (find_flags_in_text t source st) = found_flags st \<union> set fs) \<and>
   found_flags (find_flags_in_text ''USU{a}extra}'' source st) = insert ''USU{a}'' (found_flags st) \<and>
   found_flags (find_flags_in_text ''USU{}'' source st) = found_flags st \<and>
   ((\<forall>i f. \<not> occurs t i f) \<longrightarrow>
      found_flags (find_flags_in_text t source st) = found_flags st \<and>
      stdout (find_flags_in_text t source st) = stdout st)"
proof (intro conjI impI)
  show "\<exists>fs. leftmost_matches t fs \<and> (\<forall>gs. leftmost_matches t gs \<longrightarrow> gs = fs) \<and>
         (\<forall>f \<in> set fs. is_flag f) \<and>
         found_flags (find_flags_in_text t source st) = found_flags st \<union> set fs"
  proof (intro exI [of _ "findall t"] conjI allI impI ballI)
    show "leftmost_matches t (findall t)" by (rule leftmost_matches_findall)
    show "gs = findall t" if "leftmost_matches t gs" for gs
      using that leftmost_matches_unique by blast
    show "is_flag f" if "f \<in> set (findall t)" for f using that by (rule findall_is_flag)
    show "found_flags (find_flags_in_text t source st) = found_flags st \<union> set (findall t)"
      by (simp add: find_flags_in_text_eq)
  qed
  have "findall ''USU{a}extra}'' = [''USU{a}'']" by (simp add: match_here_def)
  then show "found_flags (find_flags_in_text ''USU{a}extra}'' source st) = insert ''USU{a}'' (found_flags st)"
    by (simp add: find_flags_in_text_eq)
  have "findall ''USU{}'' = []" by (simp add: match_here_def)
  then show "found_flags (find_flags_in_text ''USU{}'' source st) = found_flags st"
    by (simp add: find_flags_in_text_eq)
next
  assume "\<forall>i f. \<not> occurs t i f"
  then have e: "findall t = []" by (simp add: no_occurrence_iff)
  show "found_flags (find_flags_in_text t source st) = found_flags st"
    by (simp add: find_flags_in_text_eq e)
  show "stdout (find_flags_in_text t source st) = stdout st"
    by (simp add: find_flags_in_text_eq e)
qed

theorem find_flags_in_text_extracts_pattern_witness:
  "leftmost_matches ''xUSU{a}extra}USU{bc}'' [''USU{a}'', ''USU{bc}''] \<and>
   found_flags (find_flags_in_text ''xUSU{a}extra}USU{bc}'' ''page'' (FlagFinder False))
     = {''USU{a}'', ''USU{bc}''} \<and>
   stdout (find_flags_in_text ''USU{} and }'' ''page'' (FlagFinder False)) = []"
proof -
  have m: "findall ''xUSU{a}extra}USU{bc}'' = [''USU{a}'', ''USU{bc}'']"
    by (simp add: match_here_def)
  have n: "\<forall>i f. \<not> occurs ''USU{} and }'' i f"
    unfolding no_occurrence_iff by (simp add: match_here_def)
  obtain fs where a: "leftmost_matches ''xUSU{a}extra}USU{bc}'' fs"
    and b: "found_flags (find_flags_in_text ''xUSU{a}extra}USU{bc}'' ''page'' (FlagFinder False))
              = found_flags (FlagFinder False) \<union> set fs"
    using find_flags_in_text_extracts_pattern
      [of "''xUSU{a}extra}USU{bc}''" "''page''" "FlagFinder False"] by blast
  have fs: "fs = [''USU{a}'', ''USU{bc}'']" using a leftmost_matches_unique m by fastforce
  have c: "stdout (find_flags_in_text ''USU{} and }'' ''page'' (FlagFinder False)) = stdout (FlagFinder False)"
    using find_flags_in_text_extracts_pattern [of "''USU{} and }''" "''page''" "FlagFinder False"] n
    by blast
  show ?thesis using a b c unfolding fs by (auto simp: FlagFinder_def)
qed

subsection \<open>C3: scanning again reports nothing new\<close>

lemma set_first_time: "set (first_time seen ms) = set ms - seen"
  by (induction ms arbitrary: seen) auto

lemma distinct_first_time: "distinct (first_time seen ms)"
  by (induction ms arbitrary: seen) (auto simp: set_first_time)

lemma first_time_Nil: "set ms \<subseteq> seen \<Longrightarrow> first_time seen ms = []"
  by (induction ms arbitrary: seen) auto

lemma found_flags_find_flags_in_text:
  "found_flags (find_flags_in_text t source st) = found_flags st \<union> set (findall t)"
  by (simp add: find_flags_in_text_eq)

lemma stdout_find_flags_in_text:
  "stdout (find_flags_in_text t source st) =
     stdout st @ concat (map (flag_block source) (first_time (found_flags st) (findall t)))"
  by (simp add: find_flags_in_text_eq)

lemma rescan_found: 
  "found_flags (find_flags_in_text t source2 (find_flags_in_text t source st)) =
     found_flags (find_flags_in_text t source st)"
  by (auto simp: found_flags_find_flags_in_text)

lemma rescan_stdout:
  "stdout (find_flags_in_text t source2 (find_flags_in_text t source st)) =
     stdout (find_flags_in_text t source st)"
proof -
  have "set (findall t) \<subseteq> found_flags (find_flags_in_text t source st)"
    by (simp add: found_flags_find_flags_in_text)
  then have "first_time (found_flags (find_flags_in_text t source st)) (findall t) = []"
    by (rule first_time_Nil)
  then show ?thesis by (simp add: stdout_find_flags_in_text [of t source2])
qed

lemma found_flags_log: "found_flags (log m st) = found_flags st"
  by (simp add: log_def found_flags_print)

lemma found_flags_scan_file:
  "found_flags (scan_file e filepath st) =
     (case open_read e filepath of
        Inl msg \<Rightarrow> found_flags st
      | Inr bytes \<Rightarrow> found_flags st \<union> set (findall (decode_ignore e bytes)))"
  by (simp add: scan_file_def found_flags_print found_flags_find_flags_in_text found_flags_log
      split: sum.splits)

text \<open>
  C3. \<^verbatim>\<open>find_flags_in_text\<close> prints the two-line block only for the matches that are not in the
  set of found flags, each once: a flag already in the set is not printed again and stays in
  the set. When every match of the text is already in the set, the call changes neither the
  set nor the output; so scanning the same text a second time, under any label, prints nothing
  and leaves the set as the first scan left it, and scanning a file twice leaves the set as
  the first scan left it.
\<close>

theorem rescan_reports_nothing_new:
  "stdout (find_flags_in_text t source st) =
     stdout st @ concat (map (flag_block source) (first_time (found_flags st) (findall t))) \<and>
   (\<forall>f \<in> found_flags st. f \<notin> set (first_time (found_flags st) (findall t))) \<and>
   distinct (first_time (found_flags st) (findall t)) \<and>
   (set (findall t) \<subseteq> found_flags st \<longrightarrow>
      found_flags (find_flags_in_text t source st) = found_flags st \<and>
      stdout (find_flags_in_text t source st) = stdout st) \<and>
   found_flags (find_flags_in_text t source2 (find_flags_in_text t source st)) =
     found_flags (find_flags_in_text t source st) \<and>
   stdout (find_flags_in_text t source2 (find_flags_in_text t source st)) =
     stdout (find_flags_in_text t source st) \<and>
   found_flags (scan_file e filepath (scan_file e filepath st)) =
     found_flags (scan_file e filepath st)"
proof (intro conjI impI ballI)
  show "stdout (find_flags_in_text t source st) =
     stdout st @ concat (map (flag_block source) (first_time (found_flags st) (findall t)))"
    by (rule stdout_find_flags_in_text)
  show "f \<notin> set (first_time (found_flags st) (findall t))" if "f \<in> found_flags st" for f
    using that by (simp add: set_first_time)
  show "distinct (first_time (found_flags st) (findall t))" by (rule distinct_first_time)
  show "found_flags (find_flags_in_text t source2 (find_flags_in_text t source st)) =
     found_flags (find_flags_in_text t source st)" by (rule rescan_found)
  show "stdout (find_flags_in_text t source2 (find_flags_in_text t source st)) =
     stdout (find_flags_in_text t source st)" by (rule rescan_stdout)
  show "found_flags (scan_file e filepath (scan_file e filepath st)) =
     found_flags (scan_file e filepath st)"
    by (cases "open_read e filepath") (auto simp: found_flags_scan_file)
next
  assume a: "set (findall t) \<subseteq> found_flags st"
  then show "found_flags (find_flags_in_text t source st) = found_flags st"
    by (auto simp: found_flags_find_flags_in_text)
  show "stdout (find_flags_in_text t source st) = stdout st"
    by (simp add: stdout_find_flags_in_text first_time_Nil [OF a])
qed

theorem rescan_reports_nothing_new_witness:
  "stdout (find_flags_in_text ''USU{a} USU{b} USU{a}'' ''index.html''
             (find_flags_in_text ''x USU{a}'' ''index.html'' (FlagFinder False))) =
     [CHR 0x0A # ''[+] FLAG FOUND: USU{a}'', ''    Source: index.html'',
      CHR 0x0A # ''[+] FLAG FOUND: USU{b}'', ''    Source: index.html''] \<and>
   found_flags (find_flags_in_text ''x USU{a}'' ''again''
             (find_flags_in_text ''x USU{a}'' ''index.html'' (FlagFinder False))) = {''USU{a}''} \<and>
   stdout (find_flags_in_text ''x USU{a}'' ''again''
             (find_flags_in_text ''x USU{a}'' ''index.html'' (FlagFinder False))) =
     [CHR 0x0A # ''[+] FLAG FOUND: USU{a}'', ''    Source: index.html'']"
proof -
  define s1 where "s1 = find_flags_in_text ''x USU{a}'' ''index.html'' (FlagFinder False)"
  have m1: "findall ''x USU{a}'' = [''USU{a}'']" by (simp add: match_here_def)
  have m2: "findall ''USU{a} USU{b} USU{a}'' = [''USU{a}'', ''USU{b}'', ''USU{a}'']"
    by (simp add: match_here_def)
  have f1: "found_flags s1 = {''USU{a}''}"
    unfolding s1_def found_flags_find_flags_in_text m1 by (simp add: FlagFinder_def)
  have o1: "stdout s1 = [CHR 0x0A # ''[+] FLAG FOUND: USU{a}'', ''    Source: index.html'']"
    unfolding s1_def stdout_find_flags_in_text m1 by (simp add: FlagFinder_def flag_block_def)
  have sub: "set (findall ''x USU{a}'') \<subseteq> found_flags s1" unfolding m1 f1 by simp
  note w1 = rescan_reports_nothing_new [of "''USU{a} USU{b} USU{a}''" "''index.html''" s1]
  note w2 = rescan_reports_nothing_new [of "''x USU{a}''" "''again''" s1]
  have "stdout (find_flags_in_text ''USU{a} USU{b} USU{a}'' ''index.html'' s1) =
     stdout s1 @ concat (map (flag_block ''index.html'') (first_time (found_flags s1) [''USU{a}'', ''USU{b}'', ''USU{a}'']))"
    using w1 unfolding m2 by blast
  then have a: "stdout (find_flags_in_text ''USU{a} USU{b} USU{a}'' ''index.html'' s1) =
     [CHR 0x0A # ''[+] FLAG FOUND: USU{a}'', ''    Source: index.html'',
      CHR 0x0A # ''[+] FLAG FOUND: USU{b}'', ''    Source: index.html'']"
    by (simp add: f1 o1 flag_block_def)
  have "found_flags (find_flags_in_text ''x USU{a}'' ''again'' s1) = found_flags s1 \<and>
        stdout (find_flags_in_text ''x USU{a}'' ''again'' s1) = stdout s1"
    using w2 sub by blast
  then have b: "found_flags (find_flags_in_text ''x USU{a}'' ''again'' s1) = {''USU{a}''}"
    and c: "stdout (find_flags_in_text ''x USU{a}'' ''again'' s1) =
      [CHR 0x0A # ''[+] FLAG FOUND: USU{a}'', ''    Source: index.html'']"
    unfolding f1 o1 by blast+
  show ?thesis using a b c unfolding s1_def by simp
qed

subsection \<open>Runs of \<^verbatim>\<open>main\<close>\<close>

lemma scanned_print: "scanned (print line st) = scanned st"
  by (simp add: print_def)

lemma scanned_fold_print: "scanned (fold (\<lambda>x. print (g x)) xs st) = scanned st"
  by (induction xs arbitrary: st) (simp_all add: scanned_print)

lemma scanned_print_summary: "scanned (print_summary st) = scanned st"
  unfolding print_summary_def Let_def by (simp add: scanned_print scanned_fold_print)

lemma in_summary: "f \<in> set flags \<Longrightarrow> ''  '' @ f \<in> set (summary flags)"
  by (auto simp: summary_def)

lemma main_last_finder:
  assumes "last_finder (main e a) = Some fin"
  shows "found_flags fin = found_flags (run_scans e a)"
    and "scanned fin = scanned (run_scans e a)"
proof -
  have t: "truthy (arg_url a) \<or> truthy_list (arg_files a) \<or> truthy (arg_directory a)"
  proof (rule ccontr)
    assume "\<not> ?thesis"
    then have "last_finder (main e a) = None" by (simp add: main_usage)
    then show False using assms by simp
  qed
  have "fin = print_summary (run_scans e a) \<or> fin = run_scans e a"
  proof (cases "url_scan e a")
    case (Returns st)
    then show ?thesis using assms main_returns [OF t, of e st] by simp
  next
    case (Raises msg st)
    then show ?thesis using assms main_raises [OF t, of e msg st] by simp
  qed
  then show "found_flags fin = found_flags (run_scans e a)"
    and "scanned fin = scanned (run_scans e a)"
    by (auto simp: found_flags_print_summary scanned_print_summary)
qed

lemma main_exit_0:
  assumes "exit_status (main e a) = 0"
  shows "main e a =
           \<lparr>exit_status = 0, printed = stdout (print_summary (run_scans e a)),
            last_finder = Some (print_summary (run_scans e a)), uncaught = None\<rparr>"
proof -
  have t: "truthy (arg_url a) \<or> truthy_list (arg_files a) \<or> truthy (arg_directory a)"
  proof (rule ccontr)
    assume "\<not> ?thesis"
    then have "exit_status (main e a) = 1" by (simp add: main_usage)
    then show False using assms by simp
  qed
  show ?thesis
  proof (cases "url_scan e a")
    case (Returns st)
    then show ?thesis by (rule main_returns [OF t])
  next
    case (Raises msg st)
    then have "exit_status (main e a) = 1" using main_raises [OF t, of e msg st] by simp
    then show ?thesis using assms by simp
  qed
qed

lemma stdout_main:
  assumes "exit_status (main e a) = 0"
  shows "printed (main e a) =
           stdout (run_scans e a) @ summary (sorted_list_of_set (found_flags (run_scans e a)))"
  using main_exit_0 [OF assms] stdout_print_summary [OF finite_run_scans, of e a] by simp


subsection \<open>The sample runs\<close>

lemma sample_scans:
  "run_scans sample_env sample_args =
     \<lparr>found_flags = {''USU{x1}'', ''USU{x2}''}, verbose = False, crawl = False, max_depth = 3,
      visited_urls = {}, base_domain = None,
      stdout = [''[*] Starting flag search...'', ''[*] Looking for pattern: USU{...}'' @ [CHR 0x0A],
                CHR 0x0A # ''[+] FLAG FOUND: USU{x2}'', ''    Source: flat/a.txt'',
                CHR 0x0A # ''[+] FLAG FOUND: USU{x1}'', ''    Source: flat/a.js'',
                ''[-] Error reading nope.txt: [Errno 2] No such file or directory''],
      scanned = [(''USU{x2}'', ''flat/a.txt''), (''const key = USU{x1}; // USU{x1}'', ''flat/a.js'')]\<rparr>"
  by (simp add: run_scans_def url_scan_def later_scans_def banner_def sample_env_def
      sample_args_def truthy_def truthy_list_def
      scan_file_def log_def print_def FlagFinder_def find_flags_in_text_eq match_here_def
      flag_block_def insert_commute)

lemma sample_exit_0: "exit_status (main sample_env sample_args) = 0"
proof -
  have t: "truthy (arg_url sample_args) \<or> truthy_list (arg_files sample_args) \<or>
           truthy (arg_directory sample_args)"
    by (simp add: sample_args_def truthy_list_def)
  have "url_scan sample_env sample_args = Returns (banner sample_args)"
    by (simp add: url_scan_def sample_args_def truthy_def)
  then show ?thesis using main_returns [OF t] by simp
qed

lemma broken_page_findall: "findall broken_page = [''USU{b1}'', ''USU{b2}'']"
  by (simp add: broken_page_def match_here_def)

lemma broken_page_soup:
  "BeautifulSoup sample_env broken_page =
     \<lparr>scripts = [\<lparr>src = Some ''//['', script_string = None\<rparr>],
      stylesheet_hrefs = [],
      style_strings = [Some ''/* USU{b2} */''],
      strings = [''USU{b1}'', ''/* USU{b2} */'']\<rparr>"
proof -
  have "broken_page \<noteq> sample_page" by (simp add: broken_page_def sample_page_def)
  then show ?thesis by (simp add: sample_env_def)
qed

lemma broken_page_fetch_quiet:
  "\<not> verbose st \<Longrightarrow>
     fetch_url_content sample_env ''http://ctf.example/broken'' (log m st) = (Some broken_page, st)"
  by (simp add: sample_env_def fetch_url_content_def raise_for_status_def log_def)

lemma broken_script:
  "scan_script sample_env url \<lparr>src = Some ''//['', script_string = None\<rparr> st =
     Raises ''Invalid IPv6 URL'' st"
  by (simp add: scan_script_def truthy_def sample_env_def)

text \<open>
  The URL scan of the page with the script reference \<^verbatim>\<open>//[\<close>: the body is scanned, then
  \<^verbatim>\<open>urljoin\<close> raises in the loop over the scripts.
\<close>

lemma broken_url_scan:
  "url_scan sample_env broken_args =
     Raises ''Invalid IPv6 URL''
       \<lparr>found_flags = {''USU{b1}'', ''USU{b2}''}, verbose = False, crawl = False, max_depth = 3,
        visited_urls = {}, base_domain = None,
        stdout = [''[*] Starting flag search...'', ''[*] Looking for pattern: USU{...}'' @ [CHR 0x0A],
                  CHR 0x0A # ''[+] FLAG FOUND: USU{b1}'',
                  ''    Source: http://ctf.example/broken (HTML)'',
                  CHR 0x0A # ''[+] FLAG FOUND: USU{b2}'',
                  ''    Source: http://ctf.example/broken (HTML)''],
        scanned = [(broken_page, ''http://ctf.example/broken (HTML)'')]\<rparr>"
proof -
  define b where "b = banner broken_args"
  have q: "\<not> verbose b" unfolding b_def by (simp add: banner_def print_def FlagFinder_def broken_args_def)
  have ne: "truthy (Some broken_page)" by (simp add: truthy_def broken_page_def)
  have "url_scan sample_env broken_args = scan_url sample_env ''http://ctf.example/broken'' b"
    unfolding b_def by (simp add: url_scan_def broken_args_def truthy_def)
  also have "\<dots> = scan_page sample_env ''http://ctf.example/broken'' broken_page b"
    unfolding scan_url_cases [OF broken_page_fetch_quiet [OF q]] using ne by simp
  also have "\<dots> = Raises ''Invalid IPv6 URL''
      (find_flags_in_text broken_page (''http://ctf.example/broken'' @ '' (HTML)'') b)"
    unfolding scan_page_cases broken_page_soup by (simp add: broken_script)
  also have "find_flags_in_text broken_page (''http://ctf.example/broken'' @ '' (HTML)'') b =
       \<lparr>found_flags = {''USU{b1}'', ''USU{b2}''}, verbose = False, crawl = False, max_depth = 3,
        visited_urls = {}, base_domain = None,
        stdout = [''[*] Starting flag search...'', ''[*] Looking for pattern: USU{...}'' @ [CHR 0x0A],
                  CHR 0x0A # ''[+] FLAG FOUND: USU{b1}'',
                  ''    Source: http://ctf.example/broken (HTML)'',
                  CHR 0x0A # ''[+] FLAG FOUND: USU{b2}'',
                  ''    Source: http://ctf.example/broken (HTML)''],
        scanned = [(broken_page, ''http://ctf.example/broken (HTML)'')]\<rparr>"
    unfolding find_flags_in_text_eq broken_page_findall b_def
    by (simp add: banner_def print_def FlagFinder_def broken_args_def flag_block_def insert_commute)
  finally show ?thesis .
qed

lemma broken_main:
  "main sample_env broken_args =
     \<lparr>exit_status = 1,
      printed = [''[*] Starting flag search...'', ''[*] Looking for pattern: USU{...}'' @ [CHR 0x0A],
                 CHR 0x0A # ''[+] FLAG FOUND: USU{b1}'',
                 ''    Source: http://ctf.example/broken (HTML)'',
                 CHR 0x0A # ''[+] FLAG FOUND: USU{b2}'',
                 ''    Source: http://ctf.example/broken (HTML)''],
      last_finder = Some (run_scans sample_env broken_args),
      uncaught = Some ''Invalid IPv6 URL''\<rparr>"
proof -
  have t: "truthy (arg_url broken_args) \<or> truthy_list (arg_files broken_args) \<or>
           truthy (arg_directory broken_args)"
    by (simp add: broken_args_def truthy_def)
  show ?thesis
    unfolding main_raises [OF t broken_url_scan]
    by (simp add: run_scans_Raises [OF broken_url_scan])
qed


lemma sample_last_finder:
  "last_finder (main sample_env sample_args) = Some (print_summary (run_scans sample_env sample_args))"
  using main_exit_0 [OF sample_exit_0] by simp

subsection \<open>C9: the set of found flags only grows\<close>

text \<open>
  C9. No operation removes a flag from the set of found flags: the set after
  \<^verbatim>\<open>find_flags_in_text\<close>, \<^verbatim>\<open>scan_file\<close>, \<^verbatim>\<open>scan_directory\<close> and \<^verbatim>\<open>scan_url\<close> (however it ends)
  contains the set before, and \<^verbatim>\<open>print_summary\<close> leaves it as it is. So every match in every
  text that was scanned is in the set of the last finder of a run, and it is listed in the
  summary when the run reaches the summary and exits with status 0. It is not listed when an
  exception of \<^verbatim>\<open>urljoin\<close> ends the run: for the page with the script reference \<^verbatim>\<open>//[\<close> the flag
  \<^verbatim>\<open>USU{b1}\<close> is found in the body and stays in the set, and the run ends with status 1 and
  without a summary.
\<close>

theorem found_flags_only_grow:
  "found_flags st \<subseteq> found_flags (find_flags_in_text t source st) \<and>
   found_flags st \<subseteq> found_flags (scan_file e filepath st) \<and>
   found_flags st \<subseteq> found_flags (scan_directory e directory extensions st) \<and>
   found_flags st \<subseteq> found_flags (finder_of (scan_url e url st)) \<and>
   found_flags (print_summary st) = found_flags st \<and>
   (\<forall>fin. last_finder (main e a) = Some fin \<longrightarrow>
      (\<forall>c \<in> set (scanned fin). \<forall>f \<in> set (findall (fst c)). f \<in> found_flags fin)) \<and>
   (exit_status (main e a) = 0 \<longrightarrow>
      (\<forall>fin. last_finder (main e a) = Some fin \<longrightarrow>
         (\<forall>f \<in> found_flags fin. ''  '' @ f \<in> set (printed (main e a))))) \<and>
   exit_status (main sample_env broken_args) = 1 \<and>
   uncaught (main sample_env broken_args) = Some ''Invalid IPv6 URL'' \<and>
   last_finder (main sample_env broken_args) = Some (run_scans sample_env broken_args) \<and>
   ''USU{b1}'' \<in> found_flags (run_scans sample_env broken_args) \<and>
   ''  USU{b1}'' \<notin> set (printed (main sample_env broken_args))"
proof (intro conjI allI impI ballI)
  show "found_flags st \<subseteq> found_flags (find_flags_in_text t source st)"
    by (rule extends_subset [OF extends_find_flags_in_text])
  show "found_flags st \<subseteq> found_flags (scan_file e filepath st)"
    by (rule extends_subset [OF extends_scan_file])
  show "found_flags st \<subseteq> found_flags (scan_directory e directory extensions st)"
    by (rule extends_subset [OF extends_scan_directory])
  show "found_flags st \<subseteq> found_flags (finder_of (scan_url e url st))"
    by (rule extends_subset [OF extends_scan_url])
  show "found_flags (print_summary st) = found_flags st"
    by (rule found_flags_print_summary)
  show "exit_status (main sample_env broken_args) = 1"
    and "uncaught (main sample_env broken_args) = Some ''Invalid IPv6 URL''"
    and "last_finder (main sample_env broken_args) = Some (run_scans sample_env broken_args)"
    by (simp_all add: broken_main)
  show "''USU{b1}'' \<in> found_flags (run_scans sample_env broken_args)"
    by (simp add: run_scans_Raises [OF broken_url_scan])
  show "''  USU{b1}'' \<notin> set (printed (main sample_env broken_args))"
    by (simp add: broken_main)
next
  fix fin c f
  assume fin: "last_finder (main e a) = Some fin" and c: "c \<in> set (scanned fin)"
    and f: "f \<in> set (findall (fst c))"
  note m = main_last_finder [OF fin]
  have "f \<in> flags_of (scanned (run_scans e a))" using c f unfolding m(2) flags_of_def by auto
  then show "f \<in> found_flags fin" unfolding m(1) run_scans_found .
next
  fix fin f
  assume z: "exit_status (main e a) = 0" and fin: "last_finder (main e a) = Some fin"
    and f: "f \<in> found_flags fin"
  have "f \<in> found_flags (run_scans e a)" using f main_last_finder(1) [OF fin] by simp
  then have "f \<in> set (sorted_list_of_set (found_flags (run_scans e a)))"
    using finite_run_scans by simp
  then have "''  '' @ f \<in> set (summary (sorted_list_of_set (found_flags (run_scans e a))))"
    by (rule in_summary)
  then show "''  '' @ f \<in> set (printed (main e a))" unfolding stdout_main [OF z] by simp
qed

theorem found_flags_only_grow_witness:
  "''USU{x1}'' \<in> found_flags (print_summary (run_scans sample_env sample_args)) \<and>
   ''  USU{x1}'' \<in> set (printed (main sample_env sample_args))"
proof -
  define fin where "fin = print_summary (run_scans sample_env sample_args)"
  define c where "c = (''const key = USU{x1}; // USU{x1}'', ''flat/a.js'')"
  define f where "f = ''USU{x1}''"
  have a: "last_finder (main sample_env sample_args) = Some fin"
    unfolding fin_def by (rule sample_last_finder)
  have b: "c \<in> set (scanned fin)"
    unfolding fin_def c_def scanned_print_summary sample_scans by simp
  have m: "f \<in> set (findall (fst c))"
    unfolding c_def f_def by (simp add: match_here_def)
  note w = found_flags_only_grow [where e = sample_env and a = sample_args]
  note w6 = w [THEN conjunct2, THEN conjunct2, THEN conjunct2, THEN conjunct2, THEN conjunct2]
  have i: "f \<in> found_flags fin"
    by (rule w6 [THEN conjunct1, THEN spec, THEN mp, OF a, THEN bspec, OF b, THEN bspec, OF m])
  have "''  '' @ f \<in> set (printed (main sample_env sample_args))"
    by (rule w6 [THEN conjunct2, THEN conjunct1, THEN mp, OF sample_exit_0, THEN spec, THEN mp,
          OF a, THEN bspec, OF i])
  then show ?thesis using i unfolding fin_def f_def by simp
qed

subsection \<open>C10: every found flag is well formed\<close>

text \<open>
  C10. Every string in the set of found flags is a flag: it begins with \<^verbatim>\<open>USU{\<close>, ends with a
  closing brace and has one or more characters, none a closing brace, between the braces.
  The set is empty when the finder is created, each scan operation keeps the property,
  however it ends, and so it holds of the set of the last finder of a run, which is the set
  that the summary lists.
\<close>

theorem found_flags_well_formed:
  "found_flags (FlagFinder v) = {} \<and>
   ((\<forall>f \<in> found_flags st. is_flag f) \<longrightarrow>
      (\<forall>f \<in> found_flags (find_flags_in_text t source st). is_flag f) \<and>
      (\<forall>f \<in> found_flags (scan_file e filepath st). is_flag f) \<and>
      (\<forall>f \<in> found_flags (scan_directory e directory extensions st). is_flag f) \<and>
      (\<forall>f \<in> found_flags (finder_of (scan_url e url st)). is_flag f)) \<and>
   (\<forall>fin. last_finder (main e a) = Some fin \<longrightarrow> (\<forall>f \<in> found_flags fin. is_flag f)) \<and>
   (\<forall>f. is_flag f \<longleftrightarrow>
      (\<exists>body. f = ''USU{'' @ body @ ''}'' \<and> body \<noteq> [] \<and> CHR ''}'' \<notin> set body))"
proof (intro conjI allI impI ballI)
  show "found_flags (FlagFinder v) = {}" by (rule found_flags_FlagFinder)
  show "is_flag f = (\<exists>body. f = ''USU{'' @ body @ ''}'' \<and> body \<noteq> [] \<and> CHR ''}'' \<notin> set body)" for f
    using is_flag_iff [of f] by (simp only: flag_open_def)
next
  fix fin f
  assume fin: "last_finder (main e a) = Some fin" and "f \<in> found_flags fin"
  then have "f \<in> flags_of (scanned (run_scans e a))"
    using main_last_finder(1) [OF fin] run_scans_found by simp
  then show "is_flag f" by (rule flags_of_is_flag)
next
  assume inv: "\<forall>f \<in> found_flags st. is_flag f"
  then have i: "\<And>f. f \<in> found_flags st \<Longrightarrow> is_flag f" by blast
  show "is_flag f" if "f \<in> found_flags (find_flags_in_text t source st)" for f
    using extends_find_flags_in_text i that by (rule extends_is_flag)
  show "is_flag f" if "f \<in> found_flags (scan_file e filepath st)" for f
    using extends_scan_file i that by (rule extends_is_flag)
  show "is_flag f" if "f \<in> found_flags (scan_directory e directory extensions st)" for f
    using extends_scan_directory i that by (rule extends_is_flag)
  show "is_flag f" if "f \<in> found_flags (finder_of (scan_url e url st))" for f
    using extends_scan_url i that by (rule extends_is_flag)
qed

theorem found_flags_well_formed_witness:
  "is_flag ''USU{x1}'' \<and> is_flag ''USU{y}'' \<and> is_flag ''USU{b1}''"
proof -
  define fin where "fin = print_summary (run_scans sample_env sample_args)"
  define x1 where "x1 = ''USU{x1}''"
  define y where "y = ''USU{y}''"
  define b1 where "b1 = ''USU{b1}''"
  have a: "last_finder (main sample_env sample_args) = Some fin"
    unfolding fin_def by (rule sample_last_finder)
  have b: "x1 \<in> found_flags fin"
    unfolding fin_def x1_def found_flags_print_summary sample_scans by simp
  have a': "last_finder (main sample_env broken_args) = Some (run_scans sample_env broken_args)"
    by (simp add: broken_main)
  have b': "b1 \<in> found_flags (run_scans sample_env broken_args)"
    unfolding b1_def by (simp add: run_scans_Raises [OF broken_url_scan])
  have c: "\<forall>f \<in> found_flags (FlagFinder False). is_flag f"
    by (simp add: found_flags_FlagFinder)
  have d: "y \<in> found_flags (find_flags_in_text ''x USU{y}'' ''page'' (FlagFinder False))"
    unfolding found_flags_find_flags_in_text y_def by (simp add: match_here_def)
  note w = found_flags_well_formed [where e = sample_env and a = sample_args
      and st = "FlagFinder False" and t = "''x USU{y}''" and source = "''page''"]
  note w' = found_flags_well_formed [where e = sample_env and a = broken_args]
  have "is_flag x1"
    by (rule w [THEN conjunct2, THEN conjunct2, THEN conjunct1, THEN spec, THEN mp, OF a,
          THEN bspec, OF b])
  moreover have "is_flag y"
    by (rule w [THEN conjunct2, THEN conjunct1, THEN mp, OF c, THEN conjunct1, THEN bspec, OF d])
  moreover have "is_flag b1"
    by (rule w' [THEN conjunct2, THEN conjunct2, THEN conjunct1, THEN spec, THEN mp, OF a',
          THEN bspec, OF b'])
  ultimately show ?thesis unfolding x1_def y_def b1_def by simp
qed

subsection \<open>C2: the summary\<close>

lemma strict_sorted_list_of_set:
  "finite A \<Longrightarrow> sorted_wrt (<) (sorted_list_of_set A) \<and> set (sorted_list_of_set A) = A"
  by (simp add: strict_sorted_iff)

text \<open>
  C2. The summary lists every flag of the set of found flags once, in ascending order: the
  lines printed by \<^verbatim>\<open>print_summary\<close> are the summary block of a strictly ascending list whose
  members are the flags of the set, and the block reports that no flags were found when the
  set is empty. A run of \<^verbatim>\<open>main\<close> that exits with status 0 ends with this block for the set of
  all matches in all texts scanned, however often and in however many sources a flag
  occurred. A run that an exception of \<^verbatim>\<open>urljoin\<close> ends prints no summary: for the page with the
  script reference \<^verbatim>\<open>//[\<close> the output ends with the two flags as they were found.
\<close>

theorem summary_lists_each_flag_once:
  "(finite (found_flags st) \<longrightarrow>
      (\<exists>flags. stdout (print_summary st) = stdout st @ summary flags \<and>
               sorted_wrt (<) flags \<and> set flags = found_flags st)) \<and>
   (found_flags st = {} \<longrightarrow>
      stdout (print_summary st) =
        stdout st @ [CHR 0x0A # replicate 60 CHR ''='', ''[-] No flags found'',
                     replicate 60 CHR ''='']) \<and>
   (exit_status (main e a) = 0 \<longrightarrow>
      (\<exists>flags. printed (main e a) = stdout (run_scans e a) @ summary flags \<and>
               sorted_wrt (<) flags \<and> set flags = found_flags (run_scans e a) \<and>
               found_flags (run_scans e a) = flags_of (scanned (run_scans e a)) \<and>
               last_finder (main e a) = Some (print_summary (run_scans e a)))) \<and>
   main sample_env broken_args =
     \<lparr>exit_status = 1,
      printed = [''[*] Starting flag search...'', ''[*] Looking for pattern: USU{...}'' @ [CHR 0x0A],
                 CHR 0x0A # ''[+] FLAG FOUND: USU{b1}'',
                 ''    Source: http://ctf.example/broken (HTML)'',
                 CHR 0x0A # ''[+] FLAG FOUND: USU{b2}'',
                 ''    Source: http://ctf.example/broken (HTML)''],
      last_finder = Some (run_scans sample_env broken_args),
      uncaught = Some ''Invalid IPv6 URL''\<rparr>"
proof (intro conjI allI impI)
  assume fin: "finite (found_flags st)"
  show "\<exists>flags. stdout (print_summary st) = stdout st @ summary flags \<and>
               sorted_wrt (<) flags \<and> set flags = found_flags st"
    using stdout_print_summary [OF fin] strict_sorted_list_of_set [OF fin] by blast
next
  assume "found_flags st = {}"
  then show "stdout (print_summary st) =
        stdout st @ [CHR 0x0A # replicate 60 CHR ''='', ''[-] No flags found'',
                     replicate 60 CHR ''='']"
    using stdout_print_summary [of st] by (simp add: summary_def)
next
  assume z: "exit_status (main e a) = 0"
  have "last_finder (main e a) = Some (print_summary (run_scans e a))"
    using main_exit_0 [OF z] by simp
  then show "\<exists>flags. printed (main e a) = stdout (run_scans e a) @ summary flags \<and>
               sorted_wrt (<) flags \<and> set flags = found_flags (run_scans e a) \<and>
               found_flags (run_scans e a) = flags_of (scanned (run_scans e a)) \<and>
               last_finder (main e a) = Some (print_summary (run_scans e a))"
    using stdout_main [OF z] run_scans_found [of e a]
      strict_sorted_list_of_set [OF finite_run_scans, of e a] by blast
next
  show "main sample_env broken_args =
     \<lparr>exit_status = 1,
      printed = [''[*] Starting flag search...'', ''[*] Looking for pattern: USU{...}'' @ [CHR 0x0A],
                 CHR 0x0A # ''[+] FLAG FOUND: USU{b1}'',
                 ''    Source: http://ctf.example/broken (HTML)'',
                 CHR 0x0A # ''[+] FLAG FOUND: USU{b2}'',
                 ''    Source: http://ctf.example/broken (HTML)''],
      last_finder = Some (run_scans sample_env broken_args),
      uncaught = Some ''Invalid IPv6 URL''\<rparr>"
    by (rule broken_main)
qed

theorem summary_lists_each_flag_once_witness:
  "printed (main sample_env sample_args) =
     [''[*] Starting flag search...'', ''[*] Looking for pattern: USU{...}'' @ [CHR 0x0A],
      CHR 0x0A # ''[+] FLAG FOUND: USU{x2}'', ''    Source: flat/a.txt'',
      CHR 0x0A # ''[+] FLAG FOUND: USU{x1}'', ''    Source: flat/a.js'',
      ''[-] Error reading nope.txt: [Errno 2] No such file or directory'',
      CHR 0x0A # replicate 60 CHR ''='', ''[+] Total flags found: 2'', CHR 0x0A # ''All flags:'',
      ''  USU{x1}'', ''  USU{x2}'', replicate 60 CHR ''=''] \<and>
   stdout (print_summary (FlagFinder False)) =
     [CHR 0x0A # replicate 60 CHR ''='', ''[-] No flags found'', replicate 60 CHR ''='']"
proof -
  have f: "found_flags (run_scans sample_env sample_args) = {''USU{x1}'', ''USU{x2}''}"
    unfolding sample_scans by simp
  note w = summary_lists_each_flag_once [where e = sample_env and a = sample_args
      and st = "FlagFinder False"]
  have w3: "\<exists>flags. printed (main sample_env sample_args) =
                 stdout (run_scans sample_env sample_args) @ summary flags \<and>
               sorted_wrt (<) flags \<and> set flags = found_flags (run_scans sample_env sample_args) \<and>
               found_flags (run_scans sample_env sample_args) =
                 flags_of (scanned (run_scans sample_env sample_args)) \<and>
               last_finder (main sample_env sample_args) =
                 Some (print_summary (run_scans sample_env sample_args))"
    by (rule w [THEN conjunct2, THEN conjunct2, THEN conjunct1, THEN mp, OF sample_exit_0])
  obtain flags where p: "printed (main sample_env sample_args) =
        stdout (run_scans sample_env sample_args) @ summary flags"
    and s: "sorted_wrt (<) flags" and m: "set flags = found_flags (run_scans sample_env sample_args)"
    using w3 by (elim exE conjE)
  have "sorted flags \<and> distinct flags" using s by (simp add: strict_sorted_iff)
  then have "sorted_list_of_set (set flags) = flags"
    by (simp add: sorted_list_of_set.idem_if_sorted_distinct)
  moreover have "sorted_list_of_set {''USU{x1}'', ''USU{x2}''} = [''USU{x1}'', ''USU{x2}'']"
    by code_simp
  ultimately have fl: "flags = [''USU{x1}'', ''USU{x2}'']" unfolding m f by simp
  have c: "str_nat (Suc (Suc 0)) = ''2''" by (simp add: str_nat.simps)
  have one: "printed (main sample_env sample_args) =
     [''[*] Starting flag search...'', ''[*] Looking for pattern: USU{...}'' @ [CHR 0x0A],
      CHR 0x0A # ''[+] FLAG FOUND: USU{x2}'', ''    Source: flat/a.txt'',
      CHR 0x0A # ''[+] FLAG FOUND: USU{x1}'', ''    Source: flat/a.js'',
      ''[-] Error reading nope.txt: [Errno 2] No such file or directory'',
      CHR 0x0A # replicate 60 CHR ''='', ''[+] Total flags found: 2'', CHR 0x0A # ''All flags:'',
      ''  USU{x1}'', ''  USU{x2}'', replicate 60 CHR ''='']"
    unfolding p fl sample_scans by (simp add: summary_def c)
  have "found_flags (FlagFinder False) = {}" by (rule found_flags_FlagFinder)
  moreover have "found_flags (FlagFinder False) = {} \<longrightarrow>
     stdout (print_summary (FlagFinder False)) =
     stdout (FlagFinder False) @
       [CHR 0x0A # replicate 60 CHR ''='', ''[-] No flags found'', replicate 60 CHR ''='']"
    by (rule w [THEN conjunct2, THEN conjunct1])
  ultimately have "stdout (print_summary (FlagFinder False)) =
     stdout (FlagFinder False) @
       [CHR 0x0A # replicate 60 CHR ''='', ''[-] No flags found'', replicate 60 CHR ''='']"
    by (rule rev_mp)
  then have two: "stdout (print_summary (FlagFinder False)) =
     [CHR 0x0A # replicate 60 CHR ''='', ''[-] No flags found'', replicate 60 CHR ''='']"
    by (simp add: FlagFinder_def)
  show ?thesis using one two by (rule conjI)
qed


subsection \<open>C7: a file that cannot be read\<close>

lemma scanned_log: "scanned (log m st) = scanned st"
  by (simp add: log_def scanned_print)



subsection \<open>C6: the files a directory scan hands to \<^verbatim>\<open>scan_file\<close>\<close>

lemma endswith_iff_suffix: "endswith s ext \<longleftrightarrow> suffix ext s"
proof
  assume "endswith s ext"
  then have "s = take (length s - length ext) s @ ext"
    unfolding endswith_def by (metis append_take_drop_id)
  then show "suffix ext s" unfolding suffix_def by blast
next
  assume "suffix ext s"
  then obtain zs where "s = zs @ ext" unfolding suffix_def by blast
  then show "endswith s ext" unfolding endswith_def by simp
qed

lemma fold_concat: "fold (\<lambda>t. fold f (g t)) ts st = fold f (concat (map g ts)) st"
  by (induction ts arbitrary: st) simp_all

lemma not_is_dir: "\<not> is_dir n \<longleftrightarrow> n = File"
  by (cases n) simp_all

lemma selected_os_walk:
  "p \<in> set (concat (map (selected xs) (os_walk dirpath n))) \<longleftrightarrow>
     (\<exists>name. file_in n dirpath name p \<and> list_ex (endswith name) xs)"
proof (induction dirpath n arbitrary: p rule: os_walk.induct)
  case (1 dirpath)
  have "\<not> file_in File dirpath name p" for name
    by (auto elim: file_in.cases)
  then show ?case by simp
next
  case (2 dirpath es)
  let ?ok = "\<lambda>name. list_ex (endswith name) xs"
  have top: "p \<in> set (selected xs (dirpath, map fst (filter (\<lambda>x. is_dir (snd x)) es),
                 map fst (filter (\<lambda>x. \<not> is_dir (snd x)) es))) \<longleftrightarrow>
        (\<exists>name. (name, File) \<in> set es \<and> ?ok name \<and> p = path_join dirpath name)"
    unfolding selected_def by (force simp: not_is_dir)
  have sub: "p \<in> set (concat (map (selected xs)
                 (concat (map (\<lambda>x. os_walk (path_join dirpath (fst x)) (snd x)) es)))) \<longleftrightarrow>
        (\<exists>d s name. (d, s) \<in> set es \<and> file_in s (path_join dirpath d) name p \<and> ?ok name)"
  proof -
    have "p \<in> set (concat (map (selected xs)
                 (concat (map (\<lambda>x. os_walk (path_join dirpath (fst x)) (snd x)) es)))) \<longleftrightarrow>
          (\<exists>x \<in> set es. p \<in> set (concat (map (selected xs) (os_walk (path_join dirpath (fst x)) (snd x)))))"
      by auto
    also have "\<dots> \<longleftrightarrow> (\<exists>x \<in> set es. \<exists>name. file_in (snd x) (path_join dirpath (fst x)) name p \<and> ?ok name)"
      using "2.IH" by blast
    also have "\<dots> \<longleftrightarrow> (\<exists>d s name. (d, s) \<in> set es \<and> file_in s (path_join dirpath d) name p \<and> ?ok name)"
      by force
    finally show ?thesis .
  qed
  have inv: "file_in (Dir es) dirpath name p \<longleftrightarrow>
        ((name, File) \<in> set es \<and> p = path_join dirpath name) \<or>
        (\<exists>d s. (d, s) \<in> set es \<and> file_in s (path_join dirpath d) name p)" for name
    by (auto elim: file_in.cases intro: file_in.intros)
  have "p \<in> set (concat (map (selected xs) (os_walk dirpath (Dir es)))) \<longleftrightarrow>
        (\<exists>name. (name, File) \<in> set es \<and> ?ok name \<and> p = path_join dirpath name) \<or>
        (\<exists>d s name. (d, s) \<in> set es \<and> file_in s (path_join dirpath d) name p \<and> ?ok name)"
    using top sub by simp
  also have "\<dots> \<longleftrightarrow> (\<exists>name. file_in (Dir es) dirpath name p \<and> ?ok name)"
    unfolding inv by blast
  finally show ?case .
qed

lemma list_ex_endswith: "list_ex (endswith name) xs \<longleftrightarrow> (\<exists>ext \<in> set xs. suffix ext name)"
  by (simp add: list_ex_iff endswith_iff_suffix)



lemma sample_site_walk:
  "walk sample_env ''site'' =
     [(''site'', [''lib''], [''index.html'']), (''site/lib'', [], [''b.JS'', ''c.js''])]"
  by (simp add: walk_def sample_env_def path_join_def)

lemma sample_flat_walk:
  "walk sample_env ''flat'' = [(''flat'', [], [''a.js'', ''a.txt''])]"
  by (simp add: walk_def sample_env_def path_join_def)

lemma sample_flat_delegated: "delegated sample_env ''flat'' [''.js''] = [''flat/a.js'']"
  unfolding delegated_def sample_flat_walk
  by (simp add: selected_def endswith_def path_join_def)

lemma sample_site_delegated: "delegated sample_env ''site'' [''.js''] = [''site/lib/c.js'']"
  unfolding delegated_def sample_site_walk
  by (simp add: selected_def endswith_def path_join_def)

lemma scan_directory_delegated:
  "scan_directory e directory extensions st =
     fold (scan_file e)
       (delegated e directory (case extensions of None \<Rightarrow> default_extensions | Some xs \<Rightarrow> xs))
       (log (''Scanning directory: '' @ directory) st)"
  unfolding scan_directory_def delegated_def Let_def by (rule fold_concat)

lemma sample_flat_scan:
  "found_flags (scan_directory sample_env ''flat'' (Some [''.js'']) (FlagFinder False)) = {''USU{x1}''}"
proof -
  have r: "open_read sample_env ''flat/a.js'' = Inr ''const key = USU{x1}; // USU{x1}''"
    by (simp add: sample_env_def)
  have d: "decode_ignore sample_env ''const key = USU{x1}; // USU{x1}'' = ''const key = USU{x1}; // USU{x1}''"
    by (simp add: sample_env_def)
  have m: "findall ''const key = USU{x1}; // USU{x1}'' = [''USU{x1}'', ''USU{x1}'']"
    by (simp add: match_here_def)
  define s0 where "s0 = log (''Scanning directory: '' @ ''flat'') (FlagFinder False)"
  have f0: "found_flags s0 = {}"
    unfolding s0_def by (simp add: found_flags_log found_flags_FlagFinder)
  have "scan_directory sample_env ''flat'' (Some [''.js'']) (FlagFinder False) =
          scan_file sample_env ''flat/a.js'' s0"
    unfolding scan_directory_delegated s0_def by (simp add: sample_flat_delegated)
  moreover have "found_flags (scan_file sample_env ''flat/a.js'' s0) =
          found_flags s0 \<union> set [''USU{x1}'', ''USU{x1}'']"
    by (simp only: found_flags_scan_file r sum.case d m)
  ultimately show ?thesis unfolding f0 by simp
qed

text \<open>
  C6. \<^verbatim>\<open>scan_directory\<close> hands to \<^verbatim>\<open>scan_file\<close>, in the order of the walk, exactly the files of the
  tree, at any depth, whose name ends with one of the extensions, compared character by
  character; without an extension list the eight default extensions are used, and a path that
  is no directory yields no file. With the filter \<^verbatim>\<open>['.js']\<close>, a directory holding \<^verbatim>\<open>a.js\<close>
  (with \<^verbatim>\<open>USU{x1}\<close>) and \<^verbatim>\<open>a.txt\<close> (with \<^verbatim>\<open>USU{x2}\<close>) gives the one flag \<^verbatim>\<open>USU{x1}\<close>.
\<close>

theorem scan_directory_filters_by_extension:
  "scan_directory e directory extensions st =
     fold (scan_file e)
       (delegated e directory (case extensions of None \<Rightarrow> default_extensions | Some xs \<Rightarrow> xs))
       (log (''Scanning directory: '' @ directory) st) \<and>
   (\<forall>n. tree e directory = Some n \<longrightarrow>
      (\<forall>p. p \<in> set (delegated e directory xs) \<longleftrightarrow>
           (\<exists>name. file_in n directory name p \<and> (\<exists>ext \<in> set xs. suffix ext name)))) \<and>
   (tree e directory = None \<longrightarrow> delegated e directory xs = []) \<and>
   default_extensions =
     [''.html'', ''.htm'', ''.js'', ''.css'', ''.php'', ''.txt'', ''.json'', ''.xml''] \<and>
   found_flags (scan_directory sample_env ''flat'' (Some [''.js'']) (FlagFinder False)) = {''USU{x1}''}"
proof (intro conjI allI impI)
  show "scan_directory e directory extensions st =
     fold (scan_file e)
       (delegated e directory (case extensions of None \<Rightarrow> default_extensions | Some xs \<Rightarrow> xs))
       (log (''Scanning directory: '' @ directory) st)"
    by (rule scan_directory_delegated)
  show "default_extensions =
     [''.html'', ''.htm'', ''.js'', ''.css'', ''.php'', ''.txt'', ''.json'', ''.xml'']"
    by (rule default_extensions_def)
  show "found_flags (scan_directory sample_env ''flat'' (Some [''.js'']) (FlagFinder False)) = {''USU{x1}''}"
    by (rule sample_flat_scan)
next
  fix n p assume "tree e directory = Some n"
  then have "delegated e directory xs = concat (map (selected xs) (os_walk directory n))"
    by (simp add: delegated_def walk_def)
  then have "p \<in> set (delegated e directory xs) \<longleftrightarrow>
           (\<exists>name. file_in n directory name p \<and> list_ex (endswith name) xs)"
    using selected_os_walk [of p xs directory n] by (simp only:)
  then show "p \<in> set (delegated e directory xs) \<longleftrightarrow>
           (\<exists>name. file_in n directory name p \<and> (\<exists>ext \<in> set xs. suffix ext name))"
    unfolding list_ex_endswith .
next
  assume "tree e directory = None"
  then show "delegated e directory xs = []" by (simp add: delegated_def walk_def)
qed



theorem scan_directory_filters_by_extension_witness:
  "''site/lib/c.js'' \<in> set (delegated sample_env ''site'' default_extensions) \<and>
   delegated sample_env ''site'' [''.js''] = [''site/lib/c.js''] \<and>
   delegated sample_env ''nowhere'' [''.js''] = []"
proof -
  define lib where "lib = Dir [(''b.JS'', File), (''c.js'', File)]"
  define site where "site = Dir [(''index.html'', File), (''lib'', lib)]"
  define nm where "nm = ''c.js''"
  define p where "p = ''site/lib/c.js''"
  define js where "js = ''.js''"
  have t: "tree sample_env ''site'' = Some site"
    unfolding site_def lib_def by (simp add: sample_env_def)
  have u: "tree sample_env ''nowhere'' = None" by (simp add: sample_env_def)
  have j1: "path_join ''site'' ''lib'' = ''site/lib''" by (simp add: path_join_def)
  have j2: "path_join ''site/lib'' nm = p" unfolding nm_def p_def by (simp add: path_join_def)
  have m1: "(nm, File) \<in> set [(''b.JS'', File), (''c.js'', File)]" unfolding nm_def by simp
  have m2: "(''lib'', lib) \<in> set [(''index.html'', File), (''lib'', lib)]" by simp
  have "file_in lib ''site/lib'' nm (path_join ''site/lib'' nm)"
    unfolding lib_def using m1 by (rule file_in.here)
  then have "file_in lib (path_join ''site'' ''lib'') nm p"
    unfolding j1 j2 .
  then have f: "file_in site ''site'' nm p"
    unfolding site_def using m2 by (rule file_in.below [rotated])
  have "nm = ''c'' @ js" unfolding nm_def js_def by simp
  then have s1: "suffix js nm" by (rule suffixI)
  have s2: "js \<in> set default_extensions" unfolding js_def by (simp add: default_extensions_def)
  have s: "\<exists>ext \<in> set default_extensions. suffix ext nm"
    using s1 s2 by (rule bexI)
  have w: "(p \<in> set (delegated sample_env ''site'' default_extensions)) =
        (\<exists>name. file_in site ''site'' name p \<and>
                (\<exists>ext \<in> set default_extensions. suffix ext name))"
    by (rule scan_directory_filters_by_extension [where e = sample_env and directory = "''site''"
      and xs = default_extensions, THEN conjunct2, THEN conjunct1, THEN spec, THEN mp, OF t,
      THEN spec])
  have "file_in site ''site'' nm p \<and> (\<exists>ext \<in> set default_extensions. suffix ext nm)"
    using f s by (rule conjI)
  then have "\<exists>name. file_in site ''site'' name p \<and>
                (\<exists>ext \<in> set default_extensions. suffix ext name)"
    by (rule exI)
  then have "p \<in> set (delegated sample_env ''site'' default_extensions)"
    unfolding w .
  then have a: "''site/lib/c.js'' \<in> set (delegated sample_env ''site'' default_extensions)"
    unfolding p_def .
  have c: "delegated sample_env ''nowhere'' [''.js''] = []"
    by (rule scan_directory_filters_by_extension [where e = sample_env
          and directory = "''nowhere''" and xs = "[''.js'']",
          THEN conjunct2, THEN conjunct2, THEN conjunct1, THEN mp, OF u])
  show ?thesis using a sample_site_delegated c by (intro conjI)
qed

subsection \<open>C5: what counts as a failed fetch\<close>

lemma raise_for_status_None_iff:
  "raise_for_status r = None \<longleftrightarrow> \<not> (400 \<le> status_code r \<and> status_code r < 600)"
  unfolding raise_for_status_def by auto

lemma fetch_url_content_Inl:
  "session_get e url = Inl msg \<Longrightarrow>
     fetch_url_content e url st =
       (None, print (''[-] Error fetching '' @ url @ '': '' @ msg) (log (''Fetching: '' @ url) st))"
  by (simp add: fetch_url_content_def Let_def)

lemma fetch_url_content_raise:
  "session_get e url = Inr r \<Longrightarrow> raise_for_status r = Some msg \<Longrightarrow>
     fetch_url_content e url st =
       (None, print (''[-] Error fetching '' @ url @ '': '' @ msg) (log (''Fetching: '' @ url) st))"
  by (simp add: fetch_url_content_def Let_def)

lemma fetch_url_content_ok:
  "session_get e url = Inr r \<Longrightarrow> raise_for_status r = None \<Longrightarrow>
     fetch_url_content e url st = (Some (resp_text r), log (''Fetching: '' @ url) st)"
  by (simp add: fetch_url_content_def Let_def)

text \<open>
  C5, as the program behaves. \<^verbatim>\<open>fetch_url_content\<close> returns the body of the response exactly
  when the request raises nothing and the status is not in the range 400 to 599, the range for
  which \<^verbatim>\<open>raise_for_status\<close> raises; so it returns the body for every status from 200 to 299,
  and also for a status below 200, from 300 to 399, or from 600 on. For every exception of the
  request and for every status from 400 to 599 it prints one line with the URL and the
  message and returns \<^verbatim>\<open>None\<close>, the same way for both kinds of failure.
\<close>

theorem fetch_url_content_fails_on_4xx_5xx:
  "(\<forall>r. session_get e url = Inr r \<and> \<not> (400 \<le> status_code r \<and> status_code r < 600) \<longrightarrow>
        fetch_url_content e url st = (Some (resp_text r), log (''Fetching: '' @ url) st)) \<and>
   (\<forall>r. session_get e url = Inr r \<and> 200 \<le> status_code r \<and> status_code r < 300 \<longrightarrow>
        fst (fetch_url_content e url st) = Some (resp_text r)) \<and>
   (\<forall>r. session_get e url = Inr r \<and> 400 \<le> status_code r \<and> status_code r < 600 \<longrightarrow>
        (\<exists>msg. fetch_url_content e url st =
           (None, print (''[-] Error fetching '' @ url @ '': '' @ msg)
                    (log (''Fetching: '' @ url) st)))) \<and>
   (\<forall>msg. session_get e url = Inl msg \<longrightarrow>
        fetch_url_content e url st =
          (None, print (''[-] Error fetching '' @ url @ '': '' @ msg)
                   (log (''Fetching: '' @ url) st))) \<and>
   (fst (fetch_url_content e url st) \<noteq> None \<longleftrightarrow>
      (\<exists>r. session_get e url = Inr r \<and> \<not> (400 \<le> status_code r \<and> status_code r < 600)))"
proof (intro conjI allI impI)
  fix r assume a: "session_get e url = Inr r \<and> \<not> (400 \<le> status_code r \<and> status_code r < 600)"
  then have "raise_for_status r = None" by (simp add: raise_for_status_None_iff)
  then show "fetch_url_content e url st = (Some (resp_text r), log (''Fetching: '' @ url) st)"
    using a fetch_url_content_ok by blast
next
  fix r assume a: "session_get e url = Inr r \<and> 200 \<le> status_code r \<and> status_code r < 300"
  then have "raise_for_status r = None" by (simp add: raise_for_status_None_iff)
  then have "fetch_url_content e url st = (Some (resp_text r), log (''Fetching: '' @ url) st)"
    using a fetch_url_content_ok by blast
  then show "fst (fetch_url_content e url st) = Some (resp_text r)" by simp
next
  fix r assume a: "session_get e url = Inr r \<and> 400 \<le> status_code r \<and> status_code r < 600"
  then have "raise_for_status r \<noteq> None" by (simp add: raise_for_status_None_iff)
  then obtain msg where "raise_for_status r = Some msg" by blast
  then show "\<exists>msg. fetch_url_content e url st =
           (None, print (''[-] Error fetching '' @ url @ '': '' @ msg)
                    (log (''Fetching: '' @ url) st))"
    using a fetch_url_content_raise by blast
next
  fix msg assume "session_get e url = Inl msg"
  then show "fetch_url_content e url st =
          (None, print (''[-] Error fetching '' @ url @ '': '' @ msg)
                   (log (''Fetching: '' @ url) st))"
    by (rule fetch_url_content_Inl)
next
  show "fst (fetch_url_content e url st) \<noteq> None \<longleftrightarrow>
      (\<exists>r. session_get e url = Inr r \<and> \<not> (400 \<le> status_code r \<and> status_code r < 600))"
  proof (cases "session_get e url")
    case (Inl msg)
    then show ?thesis by (simp add: fetch_url_content_Inl)
  next
    case (Inr r)
    show ?thesis
    proof (cases "raise_for_status r")
      case None
      then show ?thesis using Inr raise_for_status_None_iff [of r]
        by (simp add: fetch_url_content_ok)
    next
      case (Some msg)
      then show ?thesis using Inr raise_for_status_None_iff [of r]
        by (simp add: fetch_url_content_raise)
    qed
  qed
qed

text \<open>
  The claim as it was stated fails for a response with status 304: the status is not from 200
  to 299, yet the body is returned and nothing is printed.
\<close>

theorem fetch_url_content_non_2xx_counterexample:
  "session_get sample_env ''http://ctf.example/cached'' =
     Inr \<lparr>status_code = 304, reason = ''Not Modified'',
          resp_url = ''http://ctf.example/cached'', resp_text = ''USU{c1}''\<rparr> \<and>
   fetch_url_content sample_env ''http://ctf.example/cached'' (FlagFinder False) =
     (Some ''USU{c1}'', FlagFinder False)"
  by (simp add: sample_env_def fetch_url_content_def raise_for_status_def log_def FlagFinder_def)


theorem fetch_url_content_fails_on_4xx_5xx_witness:
  "fst (fetch_url_content sample_env ''http://ctf.example/app.js'' (FlagFinder False)) =
     Some ''f(USU{y1})'' \<and>
   fst (fetch_url_content sample_env ''http://ctf.example/gone'' (FlagFinder False)) = None \<and>
   fetch_url_content sample_env ''http://ctf.example/down'' (FlagFinder False) =
     (None, print ''[-] Error fetching http://ctf.example/down: Connection refused''
              (FlagFinder False))"
proof -
  define u1 where "u1 = ''http://ctf.example/app.js''"
  define u2 where "u2 = ''http://ctf.example/gone''"
  define u3 where "u3 = ''http://ctf.example/down''"
  define r1 where "r1 = \<lparr>status_code = 200, reason = ''OK'', resp_url = u1, resp_text = ''f(USU{y1})''\<rparr>"
  define r2 where "r2 = \<lparr>status_code = 404, reason = ''Not Found'', resp_url = u2, resp_text = ''USU{n1}''\<rparr>"
  define st where "st = FlagFinder False"
  have g1: "session_get sample_env u1 = Inr r1 \<and> 200 \<le> status_code r1 \<and> status_code r1 < 300"
    unfolding u1_def r1_def by (simp add: sample_env_def)
  have g2: "session_get sample_env u2 = Inr r2 \<and> 400 \<le> status_code r2 \<and> status_code r2 < 600"
    unfolding u2_def r2_def by (simp add: sample_env_def)
  have g3: "session_get sample_env u3 = Inl ''Connection refused''"
    unfolding u3_def by (simp add: sample_env_def)
  have "fst (fetch_url_content sample_env u1 st) = Some (resp_text r1)"
    by (rule fetch_url_content_fails_on_4xx_5xx [where e = sample_env and url = u1 and st = st,
          THEN conjunct2, THEN conjunct1, THEN spec, THEN mp, OF g1])
  then have a: "fst (fetch_url_content sample_env u1 st) = Some ''f(USU{y1})''"
    unfolding r1_def by simp
  have "\<exists>msg. fetch_url_content sample_env u2 st =
           (None, print (''[-] Error fetching '' @ u2 @ '': '' @ msg) (log (''Fetching: '' @ u2) st))"
    by (rule fetch_url_content_fails_on_4xx_5xx [where e = sample_env and url = u2 and st = st,
          THEN conjunct2, THEN conjunct2, THEN conjunct1, THEN spec, THEN mp, OF g2])
  then have b: "fst (fetch_url_content sample_env u2 st) = None"
    by (elim exE) simp
  have "fetch_url_content sample_env u3 st =
          (None, print (''[-] Error fetching '' @ u3 @ '': '' @ ''Connection refused'')
                   (log (''Fetching: '' @ u3) st))"
    by (rule fetch_url_content_fails_on_4xx_5xx [where e = sample_env and url = u3 and st = st,
          THEN conjunct2, THEN conjunct2, THEN conjunct2, THEN conjunct1, THEN spec, THEN mp, OF g3])
  then have c: "fetch_url_content sample_env u3 st =
     (None, print ''[-] Error fetching http://ctf.example/down: Connection refused'' st)"
    unfolding u3_def st_def by (simp add: log_def FlagFinder_def)
  show ?thesis using a b c unfolding u1_def u2_def u3_def st_def by (intro conjI)
qed


subsection \<open>C4: when a URL scan is given up\<close>

lemma scanned_fetch_url_content: "scanned (snd (fetch_url_content e url st)) = scanned st"
  unfolding fetch_url_content_def Let_def
  by (simp add: scanned_print scanned_log split: sum.splits option.splits)

lemma truthy_iff: "truthy content \<longleftrightarrow> (\<exists>html. content = Some html \<and> html \<noteq> [])"
  unfolding truthy_def by (cases content) simp_all

lemma scanned_find_flags_in_text:
  "scanned (find_flags_in_text t source st) = scanned st @ [(t, source)]"
  by (simp add: find_flags_in_text_eq)

lemma scanned_scan_page:
  "\<exists>more. scanned (finder_of (scan_page e url html st)) =
            scanned st @ (html, url @ '' (HTML)'') # more"
proof -
  define s1 where "s1 = find_flags_in_text html (url @ '' (HTML)'') st"
  define fin where "fin = finder_of (scan_page e url html st)"
  have "extends s1 fin" unfolding s1_def fin_def by (rule extends_scan_page_from_body)
  then have "scanned fin = scanned s1 @ drop (length (scanned s1)) (scanned fin)"
    by (rule extends_scanned)
  moreover have "scanned s1 = scanned st @ [(html, url @ '' (HTML)'')]"
    unfolding s1_def by (rule scanned_find_flags_in_text)
  ultimately have "scanned fin =
      scanned st @ (html, url @ '' (HTML)'') # drop (length (scanned s1)) (scanned fin)"
    by simp
  then show ?thesis unfolding fin_def by (rule exI)
qed

lemma scan_page_Returns:
  assumes "scan_page e url html st = Returns fin"
  shows "fin =
     fold (scan_comment url) (strings (BeautifulSoup e html))
       (fold (scan_style url) (style_strings (BeautifulSoup e html))
          (fold (\<lambda>href s. finder_of (scan_link e url href s)) (stylesheet_hrefs (BeautifulSoup e html))
             (fold (\<lambda>script s. finder_of (scan_script e url script s)) (scripts (BeautifulSoup e html))
                (find_flags_in_text html (url @ '' (HTML)'') st))))"
proof -
  define s1 where "s1 = find_flags_in_text html (url @ '' (HTML)'') st"
  obtain s2 where o2: "for_each (scan_script e url) (scripts (BeautifulSoup e html)) s1 = Returns s2"
    using assms unfolding scan_page_cases s1_def by (auto split: outcome.splits)
  obtain s3 where o3: "for_each (scan_link e url) (stylesheet_hrefs (BeautifulSoup e html)) s2 = Returns s3"
    using assms o2 unfolding scan_page_cases s1_def by (auto split: outcome.splits)
  have "fin = fold (scan_comment url) (strings (BeautifulSoup e html))
                (fold (scan_style url) (style_strings (BeautifulSoup e html)) s3)"
    using assms o2 o3 unfolding scan_page_cases s1_def by simp
  then show ?thesis
    unfolding for_each_Returns [OF o3] for_each_Returns [OF o2] s1_def .
qed

lemma scan_script_returns:
  assumes "truthy (src script) \<longrightarrow> (\<exists>u. urljoin e url (the (src script)) = Inr u)"
  shows "\<exists>s'. scan_script e url script s = Returns s'"
  using assms unfolding scan_script_def by (auto simp: split_def Let_def)

lemma scan_link_returns:
  assumes "truthy href \<longrightarrow> (\<exists>u. urljoin e url (the href) = Inr u)"
  shows "\<exists>s'. scan_link e url href s = Returns s'"
  using assms unfolding scan_link_def by (auto simp: split_def Let_def)

lemma scan_page_returns:
  assumes "\<forall>x \<in> set (scripts (BeautifulSoup e html)).
             truthy (src x) \<longrightarrow> (\<exists>u. urljoin e url (the (src x)) = Inr u)"
    and "\<forall>h \<in> set (stylesheet_hrefs (BeautifulSoup e html)).
             truthy h \<longrightarrow> (\<exists>u. urljoin e url (the h) = Inr u)"
  shows "\<exists>fin. scan_page e url html st = Returns fin"
proof -
  define s1 where "s1 = find_flags_in_text html (url @ '' (HTML)'') st"
  have "\<exists>s2. for_each (scan_script e url) (scripts (BeautifulSoup e html)) s1 = Returns s2"
    by (rule for_each_all_return) (rule scan_script_returns, use assms(1) in blast)
  then obtain s2 where o2:
    "for_each (scan_script e url) (scripts (BeautifulSoup e html)) s1 = Returns s2" ..
  have "\<exists>s3. for_each (scan_link e url) (stylesheet_hrefs (BeautifulSoup e html)) s2 = Returns s3"
    by (rule for_each_all_return) (rule scan_link_returns, use assms(2) in blast)
  then obtain s3 where o3:
    "for_each (scan_link e url) (stylesheet_hrefs (BeautifulSoup e html)) s2 = Returns s3" ..
  show ?thesis using o2 o3 unfolding scan_page_cases s1_def by simp
qed

lemma sample_page_fetch_quiet:
  "\<not> verbose st \<Longrightarrow>
     fetch_url_content sample_env ''http://ctf.example/'' (log m st) = (Some sample_page, st)"
  by (simp add: sample_env_def fetch_url_content_def raise_for_status_def log_def)

lemma sample_page_findall: "findall sample_page = [''USU{y2}'']"
  by (simp add: sample_page_def match_here_def)

lemma sample_page_soup:
  "BeautifulSoup sample_env sample_page =
     \<lparr>scripts = [\<lparr>src = Some ''app.js'', script_string = None\<rparr>],
      stylesheet_hrefs = [],
      style_strings = [Some ''p { color: red } /* USU{y2} */''],
      strings = [''p { color: red } /* USU{y2} */'']\<rparr>"
  by (simp add: sample_env_def)

lemma sample_script:
  "\<not> verbose st \<Longrightarrow>
   scan_script sample_env ''http://ctf.example/'' \<lparr>src = Some ''app.js'', script_string = None\<rparr> st =
     Returns (find_flags_in_text ''f(USU{y1})'' ''http://ctf.example/app.js (JavaScript)'' st)"
  by (simp add: scan_script_def truthy_def sample_env_def fetch_url_content_def
      raise_for_status_def log_def Let_def)

lemma verbose_find_flags_in_text: "verbose (find_flags_in_text t source st) = verbose st"
  by (simp add: find_flags_in_text_eq)

text \<open>The scan of the sample page, step by step.\<close>

lemma sample_page_result:
  assumes "\<not> verbose st"
  shows "scan_page sample_env ''http://ctf.example/'' sample_page st =
     Returns
       (find_flags_in_text ''p { color: red } /* USU{y2} */'' ''http://ctf.example/ (HTML Content)''
          (find_flags_in_text ''p { color: red } /* USU{y2} */'' ''http://ctf.example/ (Inline CSS)''
             (find_flags_in_text ''f(USU{y1})'' ''http://ctf.example/app.js (JavaScript)''
                (find_flags_in_text sample_page ''http://ctf.example/ (HTML)'' st))))"
proof -
  define s1 where "s1 = find_flags_in_text sample_page (''http://ctf.example/'' @ '' (HTML)'') st"
  have q: "\<not> verbose s1" unfolding s1_def using assms by (simp add: verbose_find_flags_in_text)
  have "scan_page sample_env ''http://ctf.example/'' sample_page st =
     Returns
       (find_flags_in_text ''p { color: red } /* USU{y2} */'' ''http://ctf.example/ (HTML Content)''
          (find_flags_in_text ''p { color: red } /* USU{y2} */'' ''http://ctf.example/ (Inline CSS)''
             (find_flags_in_text ''f(USU{y1})'' ''http://ctf.example/app.js (JavaScript)'' s1)))"
    unfolding scan_page_cases sample_page_soup s1_def [symmetric]
    by (simp add: sample_script [OF q] scan_style_def scan_comment_def truthy_def
        del: findall.simps)
  then show ?thesis unfolding s1_def by simp
qed

lemma sample_page_scan:
  "found_flags (finder_of (scan_page sample_env ''http://ctf.example/'' sample_page (FlagFinder False))) =
     {''USU{y1}'', ''USU{y2}''}"
proof -
  have m1: "findall ''f(USU{y1})'' = [''USU{y1}'']" by (simp add: match_here_def)
  have m2: "findall ''p { color: red } /* USU{y2} */'' = [''USU{y2}'']" by (simp add: match_here_def)
  have q: "\<not> verbose (FlagFinder False)" by (simp add: FlagFinder_def)
  show ?thesis
    unfolding sample_page_result [OF q] finder_of.simps found_flags_find_flags_in_text
      sample_page_findall m1 m2 found_flags_FlagFinder
    by auto
qed




subsection \<open>C8: the command line\<close>

lemma truthy_list_iff: "truthy_list x \<longleftrightarrow> (\<exists>xs. x = Some xs \<and> xs \<noteq> [])"
  unfolding truthy_list_def by (cases x) simp_all

lemma scanned_scan_file:
  "scanned (scan_file e filepath st) =
     (case open_read e filepath of
        Inl msg \<Rightarrow> scanned st
      | Inr bytes \<Rightarrow> scanned st @ [(decode_ignore e bytes, filepath)])"
  by (simp add: scan_file_def scanned_print find_flags_in_text_eq scanned_log split: sum.splits)

lemma sample_flat_default: "delegated sample_env ''flat'' default_extensions = [''flat/a.js'', ''flat/a.txt'']"
  unfolding delegated_def sample_flat_walk
  by (simp add: selected_def endswith_def path_join_def default_extensions_def)

lemma all_args_truthy:
  "truthy (arg_url all_args)" "truthy_list (arg_files all_args)" "truthy (arg_directory all_args)"
  by (simp_all add: all_args_def truthy_def truthy_list_def)

lemma all_args_url_scan:
  "url_scan sample_env all_args =
     Returns
       (find_flags_in_text ''p { color: red } /* USU{y2} */'' ''http://ctf.example/ (HTML Content)''
          (find_flags_in_text ''p { color: red } /* USU{y2} */'' ''http://ctf.example/ (Inline CSS)''
             (find_flags_in_text ''f(USU{y1})'' ''http://ctf.example/app.js (JavaScript)''
                (find_flags_in_text sample_page ''http://ctf.example/ (HTML)'' (banner all_args)))))"
proof -
  have q: "\<not> verbose (banner all_args)"
    by (simp add: banner_def print_def FlagFinder_def all_args_def)
  have ne: "truthy (Some sample_page)" by (simp add: truthy_def sample_page_def)
  have "url_scan sample_env all_args = scan_url sample_env ''http://ctf.example/'' (banner all_args)"
    by (simp add: url_scan_def all_args_truthy) (simp add: all_args_def)
  also have "\<dots> = scan_page sample_env ''http://ctf.example/'' sample_page (banner all_args)"
    unfolding scan_url_cases [OF sample_page_fetch_quiet [OF q]] using ne by simp
  finally show ?thesis unfolding sample_page_result [OF q] .
qed

lemma all_args_scanned:
  "map snd (scanned (run_scans sample_env all_args)) =
     [''http://ctf.example/ (HTML)'', ''http://ctf.example/app.js (JavaScript)'',
      ''http://ctf.example/ (Inline CSS)'', ''http://ctf.example/ (HTML Content)'',
      ''flat/a.txt'', ''flat/a.js'', ''flat/a.txt'']"
proof -
  define s1 where "s1 = finder_of (url_scan sample_env all_args)"
  define s2 where "s2 = fold (scan_file sample_env) [''flat/a.txt'', ''nope.txt''] s1"
  define s3 where "s3 = scan_directory sample_env ''flat'' None s2"
  have z: "scanned (banner all_args) = []"
    by (simp add: banner_def print_def FlagFinder_def)
  have a: "map snd (scanned s1) =
     [''http://ctf.example/ (HTML)'', ''http://ctf.example/app.js (JavaScript)'',
      ''http://ctf.example/ (Inline CSS)'', ''http://ctf.example/ (HTML Content)'']"
    unfolding s1_def all_args_url_scan finder_of.simps scanned_find_flags_in_text z by simp
  have b: "map snd (scanned s2) = map snd (scanned s1) @ [''flat/a.txt'']"
    unfolding s2_def by (simp add: scanned_scan_file sample_env_def)
  have "s3 = fold (scan_file sample_env) [''flat/a.js'', ''flat/a.txt'']
               (log (''Scanning directory: '' @ ''flat'') s2)"
    unfolding s3_def scan_directory_delegated by (simp add: sample_flat_default)
  then have c: "map snd (scanned s3) = map snd (scanned s2) @ [''flat/a.js'', ''flat/a.txt'']"
    by (simp add: scanned_scan_file scanned_log sample_env_def)
  have "later_scans sample_env all_args s1 = s3"
    unfolding later_scans_def s3_def s2_def
    by (simp add: all_args_truthy) (simp add: all_args_def)
  then have r: "run_scans sample_env all_args = s3"
    unfolding s1_def using run_scans_Returns [OF all_args_url_scan] all_args_url_scan by simp
  show ?thesis unfolding r c b a by simp
qed





end
